theory Spec2Isabelle
  imports Complex_Main "HOL-Library.AList"
begin

section \<open>Conventions of the embedding\<close>

text \<open>
  The Python sources read the wall clock (\<^verbatim>\<open>time.time()\<close>, \<^verbatim>\<open>datetime.now()\<close>) and compute
  with floats. Clock readings, durations, latencies and scores are modelled as \<^typ>\<open>real\<close>
  (rounding is not modelled); Python's unbounded integers are \<^typ>\<open>int\<close>. An exception is a
  value: a computation that may raise returns an \<open>outcome\<close>. Only exceptions derived from
  \<^verbatim>\<open>Exception\<close> are modelled, which is what \<^verbatim>\<open>except Exception\<close> catches.

  A callable handed to the code (\<^verbatim>\<open>func\<close> of \<^verbatim>\<open>CircuitBreaker.call\<close>) may do anything to
  the world around it. It is a function from the world before to its outcome and the world
  after; the world is a type parameter \<open>'w\<close>, and \<open>clock :: 'w \<Rightarrow> real\<close> is what
  \<^verbatim>\<open>time.time()\<close> reads in a given world. Time passes while a callable runs and between
  calls; the readings that one call takes with no callable running in between are one
  reading.
\<close>

datatype exn =
    CircuitBreakerOpenError
  | RateLimitError
  | AuthenticationError
  | GeminiAPIError
  | TypeError
  | IndexError
  | OtherException string

datatype 'a outcome = Returns 'a | Raises exn

section \<open>gemini\_integration.py: CircuitBreaker\<close>

datatype breaker_state = CLOSED | OPEN | HALF_OPEN

record CircuitBreaker =
  failure_threshold :: int
  recovery_timeout :: real
  failure_count :: int
  last_failure_time :: "real option"
  state :: breaker_state

text \<open>\<^verbatim>\<open>CircuitBreaker.__init__\<close>.\<close>

definition CircuitBreaker_init :: "int \<Rightarrow> real \<Rightarrow> CircuitBreaker" where
  "CircuitBreaker_init ft rt =
     \<lparr>failure_threshold = ft, recovery_timeout = rt, failure_count = 0,
      last_failure_time = None, state = CLOSED\<rparr>"

text \<open>
  \<^verbatim>\<open>CircuitBreaker.call\<close>, first statement (the \<^verbatim>\<open>if self.state == "OPEN"\<close> block): either the
  breaker to go on with, or the exception raised before \<^verbatim>\<open>func\<close> is reached. With
  \<^verbatim>\<open>last_failure_time\<close> still \<^verbatim>\<open>None\<close> the subtraction raises \<^verbatim>\<open>TypeError\<close>.
\<close>

definition call_gate :: "('w \<Rightarrow> real) \<Rightarrow> CircuitBreaker \<Rightarrow> 'w \<Rightarrow> exn + CircuitBreaker" where
  "call_gate clock b w =
     (if state b = OPEN then
        (case last_failure_time b of
           None \<Rightarrow> Inl TypeError
         | Some t \<Rightarrow>
             if clock w - t > recovery_timeout b
             then Inr (b\<lparr>state := HALF_OPEN, failure_count := 0\<rparr>)
             else Inl CircuitBreakerOpenError)
      else Inr b)"

text \<open>
  \<^verbatim>\<open>CircuitBreaker.call\<close>, the \<^verbatim>\<open>try\<close> statement: \<^verbatim>\<open>func\<close> is invoked in the world \<open>w\<close>;
  the handler reads the clock in the world \<^verbatim>\<open>func\<close> left behind and re-raises.
\<close>

definition call_try ::
  "('w \<Rightarrow> real) \<Rightarrow> CircuitBreaker \<Rightarrow> ('w \<Rightarrow> 'a outcome \<times> 'w) \<Rightarrow> 'w
     \<Rightarrow> CircuitBreaker \<times> 'a outcome \<times> 'w" where
  "call_try clock b func w =
     (case func w of
        (Returns r, w') \<Rightarrow>
          ((if state b = HALF_OPEN then b\<lparr>state := CLOSED, failure_count := 0\<rparr> else b),
           Returns r, w')
      | (Raises e, w') \<Rightarrow>
          (let b1 = b\<lparr>failure_count := failure_count b + 1,
                        last_failure_time := Some (clock w')\<rparr>;
               b2 = (if failure_count b1 \<ge> failure_threshold b1
                     then b1\<lparr>state := OPEN\<rparr> else b1)
           in (b2, Raises e, w')))"

definition call ::
  "('w \<Rightarrow> real) \<Rightarrow> CircuitBreaker \<Rightarrow> ('w \<Rightarrow> 'a outcome \<times> 'w) \<Rightarrow> 'w
     \<Rightarrow> CircuitBreaker \<times> 'a outcome \<times> 'w" where
  "call clock b func w =
     (case call_gate clock b w of
        Inl e \<Rightarrow> (b, Raises e, w)
      | Inr b' \<Rightarrow> call_try clock b' func w)"

text \<open>\<^verbatim>\<open>CircuitBreaker.reset\<close>.\<close>

definition reset :: "CircuitBreaker \<Rightarrow> CircuitBreaker" where
  "reset b = b\<lparr>state := CLOSED, failure_count := 0, last_failure_time := None\<rparr>"

text \<open>
  A sequence of calls on one breaker. Between two calls the world changes in ways the
  breaker does not control (time passes), so every call comes with the world it is made
  in. The result is the breaker after the last call and, per call, what the caller saw:
  the outcome and the world after it.
\<close>

fun call_seq ::
  "('w \<Rightarrow> real) \<Rightarrow> CircuitBreaker \<Rightarrow> (('w \<Rightarrow> 'a outcome \<times> 'w) \<times> 'w) list
     \<Rightarrow> CircuitBreaker \<times> ('a outcome \<times> 'w) list" where
  "call_seq clock b [] = (b, [])"
| "call_seq clock b ((func, w) # cs) =
     (case call clock b func w of
        (b', r, w') \<Rightarrow>
          (case call_seq clock b' cs of (b'', rs) \<Rightarrow> (b'', (r, w') # rs)))"

text \<open>A callable fails in a world when invoking it there raises.\<close>

definition fails_in :: "('w \<Rightarrow> 'a outcome \<times> 'w) \<Rightarrow> 'w \<Rightarrow> bool" where
  "fails_in func w = (case fst (func w) of Raises e \<Rightarrow> True | Returns r \<Rightarrow> False)"

text \<open>
  The callables of the examples: the world is the clock reading itself, \<open>boom\<close> raises and
  \<open>fine\<close> returns, each taking one second.
\<close>

definition boom :: "real \<Rightarrow> unit outcome \<times> real" where
  "boom w = (Raises (OtherException ''boom''), w + 1)"

definition fine :: "real \<Rightarrow> unit outcome \<times> real" where
  "fine w = (Returns (), w + 1)"

section \<open>gemini\_integration.py: ResponseCache\<close>

record ConsultationRequest =
  query :: string
  context' :: string
  uncertainty_detected :: bool
  confidence_score :: real

text \<open>
  The dictionary \<^verbatim>\<open>self.cache\<close> maps a key to the pair (response, timestamp). The digest
  \<^verbatim>\<open>hashlib.md5(...).hexdigest()\<close> is a parameter \<open>md5\<close> of the model.
\<close>

record ResponseCache =
  cache :: "string \<rightharpoonup> string \<times> real"
  ttl :: real

definition hash_request :: "(string \<Rightarrow> string) \<Rightarrow> ConsultationRequest \<Rightarrow> string" where
  "hash_request md5 request = md5 (query request @ '':'' @ context' request)"

definition ResponseCache_get ::
  "(string \<Rightarrow> string) \<Rightarrow> ResponseCache \<Rightarrow> ConsultationRequest \<Rightarrow> real
     \<Rightarrow> ResponseCache \<times> string option" where
  "ResponseCache_get md5 rc request now =
     (let key = hash_request md5 request in
      case cache rc key of
        Some (response, timestamp) \<Rightarrow>
          if now - timestamp < ttl rc then (rc, Some response)
          else (rc\<lparr>cache := (cache rc)(key := None)\<rparr>, None)
      | None \<Rightarrow> (rc, None))"

definition ResponseCache_set ::
  "(string \<Rightarrow> string) \<Rightarrow> ResponseCache \<Rightarrow> ConsultationRequest \<Rightarrow> string \<Rightarrow> real
     \<Rightarrow> ResponseCache" where
  "ResponseCache_set md5 rc request response now =
     rc\<lparr>cache := (cache rc)(hash_request md5 request \<mapsto> (response, now))\<rparr>"

section \<open>gemini\_integration.py: GeminiIntegration\<close>

text \<open>
  The fields of \<^verbatim>\<open>GeminiIntegration\<close> that the rate limiter and \<^verbatim>\<open>consult_gemini\<close> use.
  \<open>requests_per_minute\<close> is \<^verbatim>\<open>config["rate_limiting"]["requests_per_minute"]\<close> and
  \<open>caching_enabled\<close> is \<^verbatim>\<open>config.get("caching", {}).get("enabled", True)\<close>.
\<close>

record GeminiIntegration =
  requests_per_minute :: int
  caching_enabled :: bool
  last_request_time :: real
  request_count :: int
  circuit_breaker :: CircuitBreaker
  response_cache :: ResponseCache

text \<open>\<^verbatim>\<open>GeminiIntegration._check_rate_limit\<close>; \<open>current_time\<close> is its reading of the clock.\<close>

definition check_rate_limit :: "GeminiIntegration \<Rightarrow> real \<Rightarrow> GeminiIntegration \<times> bool" where
  "check_rate_limit g current_time =
     (let g1 = (if last_request_time g = 0
                then g\<lparr>last_request_time := current_time, request_count := 0\<rparr> else g);
          g2 = (if current_time - last_request_time g1 > 60
                then g1\<lparr>request_count := 0, last_request_time := current_time\<rparr> else g1);
          max_requests = requests_per_minute g2
      in if request_count g2 \<ge> max_requests then (g2, False)
         else (g2\<lparr>request_count := request_count g2 + 1\<rparr>, True))"

text \<open>A run of rate-limit checks, one per clock reading, with the answers in order.\<close>

fun check_rate_limit_seq :: "GeminiIntegration \<Rightarrow> real list \<Rightarrow> GeminiIntegration \<times> bool list" where
  "check_rate_limit_seq g [] = (g, [])"
| "check_rate_limit_seq g (t # ts) =
     (case check_rate_limit g t of
        (g', ok) \<Rightarrow> (case check_rate_limit_seq g' ts of (g'', oks) \<Rightarrow> (g'', ok # oks)))"

text \<open>
  \<^verbatim>\<open>asyncio.create_task(coro)\<close> schedules the coroutine and returns its task at once; the
  coroutine's body has not run when it returns, so nothing the body raises can surface
  here. A task is modelled by the computation it wraps, and \<^verbatim>\<open>await task\<close> by running it.
\<close>

definition create_task ::
  "('w \<Rightarrow> 'a outcome \<times> 'w) \<Rightarrow> 'w \<Rightarrow> ('w \<Rightarrow> 'a outcome \<times> 'w) outcome \<times> 'w" where
  "create_task coro w = (Returns coro, w)"

text \<open>The \<^verbatim>\<open>except\<close> clauses of \<^verbatim>\<open>consult_gemini\<close>: three exceptions pass, the rest is wrapped.\<close>

definition consult_handler :: "exn \<Rightarrow> exn" where
  "consult_handler e =
     (if e = CircuitBreakerOpenError then e
      else if e = RateLimitError then e
      else if e = AuthenticationError then e
      else GeminiAPIError)"

text \<open>
  \<^verbatim>\<open>GeminiIntegration.consult_gemini\<close>. The parameters are the clock, the digest, the pure
  \<^verbatim>\<open>_format_response\<close> and \<open>make_gemini_request\<close>, what the coroutine
  \<^verbatim>\<open>self._make_gemini_request(request)\<close> does when it runs: the underlying provider request,
  with any outcome. A string is truthy when it is not empty.
\<close>

definition consult_gemini ::
  "('w \<Rightarrow> real) \<Rightarrow> (string \<Rightarrow> string) \<Rightarrow> (string \<Rightarrow> ConsultationRequest \<Rightarrow> string)
     \<Rightarrow> (ConsultationRequest \<Rightarrow> 'w \<Rightarrow> string option outcome \<times> 'w)
     \<Rightarrow> GeminiIntegration \<Rightarrow> ConsultationRequest \<Rightarrow> 'w
     \<Rightarrow> GeminiIntegration \<times> string option outcome \<times> 'w" where
  "consult_gemini clock md5 format_response make_gemini_request g request w =
     (let (rc, cached_response) =
            (if caching_enabled g
             then ResponseCache_get md5 (response_cache g) request (clock w)
             else (response_cache g, None));
          g0 = g\<lparr>response_cache := rc\<rparr>
      in if cached_response \<noteq> None \<and> cached_response \<noteq> Some []
         then (g0, Returns cached_response, w)
         else
           (case check_rate_limit g0 (clock w) of
              (g1, False) \<Rightarrow> (g1, Raises RateLimitError, w)
            | (g1, True) \<Rightarrow>
                (case call clock (circuit_breaker g1)
                        (create_task (make_gemini_request request)) w of
                   (b, Raises e, w1) \<Rightarrow>
                     (g1\<lparr>circuit_breaker := b\<rparr>, Raises (consult_handler e), w1)
                 | (b, Returns task, w1) \<Rightarrow>
                     (let g2 = g1\<lparr>circuit_breaker := b\<rparr> in
                      case task w1 of
                        (Raises e, w2) \<Rightarrow> (g2, Raises (consult_handler e), w2)
                      | (Returns result, w2) \<Rightarrow>
                          (case result of
                             None \<Rightarrow> (g2, Raises (consult_handler GeminiAPIError), w2)
                           | Some r \<Rightarrow>
                               if r = [] then (g2, Raises (consult_handler GeminiAPIError), w2)
                               else
                                 (let formatted_response = format_response r request;
                                      g3 = (if caching_enabled g2
                                            then g2\<lparr>response_cache :=
                                                   ResponseCache_set md5 (response_cache g2)
                                                     request formatted_response (clock w2)\<rparr>
                                            else g2)
                                  in (g3, Returns (Some formatted_response), w2)))))))"

text \<open>A run of consultations on one integration, each made in its own world.\<close>

fun consult_seq ::
  "('w \<Rightarrow> real) \<Rightarrow> (string \<Rightarrow> string) \<Rightarrow> (string \<Rightarrow> ConsultationRequest \<Rightarrow> string)
     \<Rightarrow> (ConsultationRequest \<Rightarrow> 'w \<Rightarrow> string option outcome \<times> 'w)
     \<Rightarrow> GeminiIntegration \<Rightarrow> (ConsultationRequest \<times> 'w) list
     \<Rightarrow> GeminiIntegration \<times> string option outcome list" where
  "consult_seq clock md5 fmt mk g [] = (g, [])"
| "consult_seq clock md5 fmt mk g ((request, w) # rs) =
     (case consult_gemini clock md5 fmt mk g request w of
        (g', r, w') \<Rightarrow>
          (case consult_seq clock md5 fmt mk g' rs of (g'', outs) \<Rightarrow> (g'', r # outs)))"

text \<open>
  An integration as \<^verbatim>\<open>__init__\<close> leaves it with the default configuration (10 requests per
  minute, threshold 5, recovery timeout 60, cache TTL 300), and a provider whose request
  always fails after one second.
\<close>

definition gemini_default :: GeminiIntegration where
  "gemini_default =
     \<lparr>requests_per_minute = 10, caching_enabled = True, last_request_time = 0,
      request_count = 0, circuit_breaker = CircuitBreaker_init 5 60,
      response_cache = \<lparr>cache = Map.empty, ttl = 300\<rparr>\<rparr>"

definition provider_down :: "ConsultationRequest \<Rightarrow> real \<Rightarrow> string option outcome \<times> real" where
  "provider_down request w = (Raises GeminiAPIError, w + 1)"

definition some_request :: ConsultationRequest where
  "some_request =
     \<lparr>query = ''q'', context' = ''c'', uncertainty_detected = False, confidence_score = 0\<rparr>"

text \<open>A limiter of two requests per minute whose window started at time 100.\<close>

definition gemini_two_per_minute :: GeminiIntegration where
  "gemini_two_per_minute = gemini_default\<lparr>requests_per_minute := 2, last_request_time := 100\<rparr>"

section \<open>Strings\<close>

text \<open>
  Strings are lists of characters below 128 in what follows: \<^verbatim>\<open>str.lower\<close> changes the
  letters A to Z only and the white space of \<^verbatim>\<open>str.strip\<close> and \<^verbatim>\<open>str.split\<close> is the ASCII white
  space of Python (tab, line feed, vertical tab, form feed, carriage return, the four
  separators 28 to 31 and the space).
\<close>

definition isspace :: "char \<Rightarrow> bool" where
  "isspace c = (let n = (of_char c :: nat) in (9 \<le> n \<and> n \<le> 13) \<or> (28 \<le> n \<and> n \<le> 32))"

definition lower_char :: "char \<Rightarrow> char" where
  "lower_char c =
     (let n = (of_char c :: nat) in if 65 \<le> n \<and> n \<le> 90 then char_of (n + 32) else c)"

definition str_lower :: "string \<Rightarrow> string" where
  "str_lower s = map lower_char s"

definition str_strip :: "string \<Rightarrow> string" where
  "str_strip s = rev (dropWhile isspace (rev (dropWhile isspace s)))"

text \<open>\<^verbatim>\<open>s.split()\<close>: the maximal runs of characters that are not white space, in order.\<close>

fun split_from :: "string \<Rightarrow> string \<Rightarrow> string list" where
  "split_from [] word = (if word = [] then [] else [word])"
| "split_from (c # cs) word =
     (if isspace c then (if word = [] then split_from cs [] else word # split_from cs [])
      else split_from cs (word @ [c]))"

definition str_split :: "string \<Rightarrow> string list" where
  "str_split s = split_from s []"

section \<open>optimized-ai-system.py: query patterns and requests\<close>

datatype QueryPattern = FAQ | TECHNICAL | CREATIVE | ANALYSIS | DEBUG | GENERAL

text \<open>
  \<^verbatim>\<open>OptimizedConsultationRequest\<close> has the four fields of \<^verbatim>\<open>ConsultationRequest\<close> and more;
  of the others only \<open>pattern_type\<close> is read by the functions modelled here.
\<close>

record OptimizedConsultationRequest = ConsultationRequest +
  pattern_type :: QueryPattern

section \<open>optimized-ai-system.py: provider statistics\<close>

text \<open>\<^verbatim>\<open>min_time\<close> starts as \<^verbatim>\<open>float('inf')\<close>.\<close>

datatype float_or_inf = PosInf | Finite real

record ProviderStats =
  requests :: int
  successes :: int
  failures :: int
  avg_time :: real
  min_time :: float_or_inf
  max_time :: real
  recent_times :: "real list"

text \<open>The statistics dictionary a provider starts with.\<close>

definition new_stats :: ProviderStats where
  "new_stats =
     \<lparr>requests = 0, successes = 0, failures = 0, avg_time = 0, min_time = PosInf,
      max_time = 0, recent_times = []\<rparr>"

text \<open>\<^verbatim>\<open>self.provider_stats\<close> as \<^verbatim>\<open>__init__\<close> builds it.\<close>

definition provider_stats_init :: "string \<rightharpoonup> ProviderStats" where
  "provider_stats_init = [''gemini'' \<mapsto> new_stats, ''llama2'' \<mapsto> new_stats]"

text \<open>\<^verbatim>\<open>self.provider_stats.get(provider, {...})\<close> with the default of the update.\<close>

definition stats_of :: "(string \<rightharpoonup> ProviderStats) \<Rightarrow> string \<Rightarrow> ProviderStats" where
  "stats_of provider_stats provider =
     (case provider_stats provider of Some st \<Rightarrow> st | None \<Rightarrow> new_stats)"

text \<open>The invariant of the three counters.\<close>

definition counted :: "ProviderStats \<Rightarrow> bool" where
  "counted st = (requests st = successes st + failures st)"

text \<open>\<^verbatim>\<open>deque(maxlen=n).append(x)\<close>: when full, the oldest sample is dropped.\<close>

definition deque_append :: "nat \<Rightarrow> 'a list \<Rightarrow> 'a \<Rightarrow> 'a list" where
  "deque_append maxlen xs x = (let ys = xs @ [x] in drop (length ys - maxlen) ys)"

definition min_with :: "float_or_inf \<Rightarrow> real \<Rightarrow> float_or_inf" where
  "min_with m x = (case m of PosInf \<Rightarrow> Finite x | Finite y \<Rightarrow> Finite (min y x))"

text \<open>\<^verbatim>\<open>OptimizedMultiAIIntegration._update_provider_stats_optimized\<close>.\<close>

definition update_provider_stats_optimized ::
  "(string \<rightharpoonup> ProviderStats) \<Rightarrow> string \<Rightarrow> bool \<Rightarrow> real \<Rightarrow> (string \<rightharpoonup> ProviderStats)" where
  "update_provider_stats_optimized provider_stats provider success response_time =
     (let stats0 = stats_of provider_stats provider;
          stats1 = stats0\<lparr>requests := requests stats0 + 1\<rparr>;
          stats2 = (if success then stats1\<lparr>successes := successes stats1 + 1\<rparr>
                    else stats1\<lparr>failures := failures stats1 + 1\<rparr>);
          stats3 = stats2\<lparr>recent_times := deque_append 100 (recent_times stats2) response_time\<rparr>;
          stats4 = stats3\<lparr>min_time := min_with (min_time stats3) response_time\<rparr>;
          stats5 = stats4\<lparr>max_time := max (max_time stats4) response_time\<rparr>;
          stats6 = (if recent_times stats5 \<noteq> []
                    then stats5\<lparr>avg_time := sum_list (recent_times stats5)
                                            / real (length (recent_times stats5))\<rparr>
                    else stats5)
      in provider_stats(provider \<mapsto> stats6))"

text \<open>A run of updates: (provider, success, response time) each.\<close>

fun update_provider_stats_seq ::
  "(string \<rightharpoonup> ProviderStats) \<Rightarrow> (string \<times> bool \<times> real) list \<Rightarrow> (string \<rightharpoonup> ProviderStats)" where
  "update_provider_stats_seq provider_stats [] = provider_stats"
| "update_provider_stats_seq provider_stats ((provider, success, response_time) # us) =
     update_provider_stats_seq
       (update_provider_stats_optimized provider_stats provider success response_time) us"

section \<open>optimized-ai-system.py: adaptive provider selection\<close>

text \<open>
  The body of the loop of \<^verbatim>\<open>_get_adaptive_provider\<close> up to \<^verbatim>\<open>final_score\<close>. A provider
  without an entry in \<^verbatim>\<open>provider_stats\<close> gets the empty dictionary, whose \<^verbatim>\<open>requests\<close>
  default to 0.
\<close>

definition final_score :: "(string \<rightharpoonup> ProviderStats) \<Rightarrow> QueryPattern \<Rightarrow> string \<Rightarrow> real" where
  "final_score provider_stats pattern provider =
     (let base_score =
            (case provider_stats provider of
               None \<Rightarrow> 0.5
             | Some stats \<Rightarrow>
                 if requests stats = 0 then 0.5
                 else
                   (let success_rate = real_of_int (successes stats) / real_of_int (requests stats);
                        speed_factor = max 0.1 ((10.0 - min (avg_time stats) 10.0) / 10.0)
                    in success_rate * (0.7 + 0.3 * speed_factor)));
          pattern_boost =
            (if (pattern = FAQ \<or> pattern = DEBUG) \<and> provider = ''gemini'' then 1.2
             else if pattern = CREATIVE \<and> provider = ''llama2'' then 1.2
             else 1.0)
      in base_score * pattern_boost)"

text \<open>The loop, carrying \<^verbatim>\<open>(best_provider, best_score)\<close>.\<close>

fun adaptive_loop ::
  "(string \<rightharpoonup> ProviderStats) \<Rightarrow> QueryPattern \<Rightarrow> string list \<Rightarrow> string \<times> real \<Rightarrow> string \<times> real" where
  "adaptive_loop provider_stats pattern [] best = best"
| "adaptive_loop provider_stats pattern (provider # rest) (best_provider, best_score) =
     (if final_score provider_stats pattern provider > best_score
      then adaptive_loop provider_stats pattern rest
             (provider, final_score provider_stats pattern provider)
      else adaptive_loop provider_stats pattern rest (best_provider, best_score))"

text \<open>
  \<^verbatim>\<open>_get_adaptive_provider\<close>. On an empty list \<^verbatim>\<open>available_providers[0]\<close> raises
  \<^verbatim>\<open>IndexError\<close>.
\<close>

definition get_adaptive_provider ::
  "(string \<rightharpoonup> ProviderStats) \<Rightarrow> string list \<Rightarrow> QueryPattern \<Rightarrow> exn + string" where
  "get_adaptive_provider provider_stats available_providers pattern =
     (if length available_providers = 1
      then (case available_providers of [] \<Rightarrow> Inl IndexError | first # _ \<Rightarrow> Inr first)
      else
        (case available_providers of
           [] \<Rightarrow> Inl IndexError
         | first # _ \<Rightarrow>
             Inr (fst (adaptive_loop provider_stats pattern available_providers (first, 0.0)))))"

text \<open>
  The score as the specification words it: success rate (1.0 without history) times
  \<open>0.7 + 0.3 * speedFactor\<close>, with \<open>speedFactor = clamp((10 - avgLatency)/10, 0.1, 1)\<close>, times
  1.2 for a favored provider.
\<close>

definition clamp :: "real \<Rightarrow> real \<Rightarrow> real \<Rightarrow> real" where
  "clamp x lo hi = max lo (min x hi)"

definition spec_favored :: "QueryPattern \<Rightarrow> string \<Rightarrow> bool" where
  "spec_favored pattern provider =
     ((pattern = FAQ \<or> pattern = DEBUG) \<and> provider = ''gemini''
      \<or> pattern = CREATIVE \<and> provider = ''llama2'')"

definition spec_success_rate :: "ProviderStats \<Rightarrow> real" where
  "spec_success_rate stats =
     (if requests stats = 0 then 1.0
      else real_of_int (successes stats) / real_of_int (requests stats))"

definition spec_score :: "ProviderStats \<Rightarrow> QueryPattern \<Rightarrow> string \<Rightarrow> real" where
  "spec_score stats pattern provider =
     spec_success_rate stats * (0.7 + 0.3 * clamp ((10 - avg_time stats) / 10) 0.1 1)
       * (if spec_favored pattern provider then 1.2 else 1)"

text \<open>Statistics for the examples: ten requests, eight of them successful, one second on average.\<close>

definition stats_8_of_10 :: ProviderStats where
  "stats_8_of_10 =
     \<lparr>requests = 10, successes = 8, failures = 2, avg_time = 1, min_time = Finite 1,
      max_time = 1, recent_times = replicate 10 1\<rparr>"

section \<open>optimized-ai-system.py: adaptive timeout\<close>

text \<open>
  \<^verbatim>\<open>_calculate_adaptive_timeout\<close>; \<open>timeout_total\<close> is \<^verbatim>\<open>self.config.get("timeout_total", 60)\<close>.
\<close>

definition pattern_multipliers :: "QueryPattern \<Rightarrow> real" where
  "pattern_multipliers pattern =
     (case pattern of
        FAQ \<Rightarrow> 0.6 | TECHNICAL \<Rightarrow> 1.2 | CREATIVE \<Rightarrow> 1.5
      | ANALYSIS \<Rightarrow> 1.3 | DEBUG \<Rightarrow> 1.0 | GENERAL \<Rightarrow> 1.0)"

definition calculate_adaptive_timeout :: "real \<Rightarrow> OptimizedConsultationRequest \<Rightarrow> real" where
  "calculate_adaptive_timeout timeout_total request =
     (let base_timeout = timeout_total / 2;
          query_length = length (str_split (query request));
          base_timeout = (if query_length > 50 then base_timeout * 1.5
                          else if query_length < 10 then base_timeout * 0.7
                          else base_timeout);
          multiplier = pattern_multipliers (pattern_type request)
      in max 10.0 (min (base_timeout * multiplier) 120.0))"

text \<open>The factor the specification names for the length of the query, in words.\<close>

definition length_factor :: "nat \<Rightarrow> real" where
  "length_factor n = (if n > 50 then 1.5 else if n < 10 then 0.7 else 1.0)"

text \<open>
  The number of words of a text in the specification's sense, counted without splitting
  the text: a word starts at every character that is not white space and stands first or
  right after white space.
\<close>

fun count_word_starts :: "bool \<Rightarrow> string \<Rightarrow> nat" where
  "count_word_starts after_space [] = 0"
| "count_word_starts after_space (c # cs) =
     (if \<not> isspace c \<and> after_space then 1 else 0) + count_word_starts (isspace c) cs"

definition word_count :: "string \<Rightarrow> nat" where
  "word_count s = count_word_starts True s"

text \<open>\<^verbatim>\<open>" ".join(words)\<close>: a text made of the given words, one space between two.\<close>

fun join_words :: "string list \<Rightarrow> string" where
  "join_words [] = []"
| "join_words [w] = w"
| "join_words (w # v # ws) = w @ '' '' @ join_words (v # ws)"

text \<open>A request with the given query and pattern, for the examples.\<close>

definition query_request :: "string \<Rightarrow> QueryPattern \<Rightarrow> OptimizedConsultationRequest" where
  "query_request q p =
     \<lparr>query = q, context' = [], uncertainty_detected = False, confidence_score = 0,
      pattern_type = p\<rparr>"

section \<open>optimized-ai-system.py: AdvancedCache\<close>

text \<open>
  \<^verbatim>\<open>datetime\<close> values are clock readings in seconds and \<^verbatim>\<open>timedelta\<close> values are seconds.
\<close>

record CachedResponse =
  response :: string
  provider :: string
  model_used :: string
  timestamp :: real
  hit_count :: int
  query_hash :: string
  confidence :: real

text \<open>
  A row of the table \<^verbatim>\<open>cache_entries\<close>, whose primary key is the query hash. The column
  \<^verbatim>\<open>response_data\<close> holds the pickled \<^verbatim>\<open>CachedResponse\<close>; unpickling gives back an equal
  object, so the column is modelled by the object. The \<^verbatim>\<open>timestamp\<close> column holds the ISO
  text of a \<^verbatim>\<open>datetime\<close>, which \<^verbatim>\<open>fromisoformat\<close> reads back unchanged.
\<close>

record cache_row =
  response_data :: CachedResponse
  row_timestamp :: real
  row_hit_count :: int
  row_provider :: string
  row_model_used :: string

text \<open>
  The two dictionaries keep the order of insertion, which the eviction sorts stably, so
  they are association lists; \<open>db\<close> is the table in \<^verbatim>\<open>cache.db\<close>.
\<close>

record AdvancedCache =
  max_size :: int
  ttl :: real
  cache :: "(string \<times> CachedResponse) list"
  access_times :: "(string \<times> real) list"
  db :: "string \<rightharpoonup> cache_row"

text \<open>
  \<^verbatim>\<open>AdvancedCache._generate_hash\<close>; \<open>sha256\<close> stands for
  \<^verbatim>\<open>hashlib.sha256(...).hexdigest()\<close>, a parameter of the model.
\<close>

definition generate_hash :: "(string \<Rightarrow> string) \<Rightarrow> string \<Rightarrow> string \<Rightarrow> string" where
  "generate_hash sha256 query_text context_text =
     (let content = str_lower (str_strip query_text) @ str_lower (str_strip context_text)
      in take 16 (sha256 content))"

text \<open>The normal form of the specification: lower-cased and trimmed.\<close>

definition normalize :: "string \<Rightarrow> string" where
  "normalize s = str_strip (str_lower s)"

text \<open>\<^verbatim>\<open>AdvancedCache._evict_lru\<close>: \<^verbatim>\<open>sorted\<close> is stable, as \<open>sort_key\<close> is.\<close>

definition evict_lru :: "AdvancedCache \<Rightarrow> AdvancedCache" where
  "evict_lru c =
     (if access_times c = [] then c
      else
        (let sorted_items = sort_key snd (access_times c);
             evict_count = max 1 (length (cache c) div 10)
         in fold (\<lambda>(h, _) c'. c'\<lparr>cache := AList.delete h (cache c'),
                                  access_times := AList.delete h (access_times c')\<rparr>)
              (take evict_count sorted_items) c))"

text \<open>
  \<^verbatim>\<open>AdvancedCache.set\<close>. \<open>now\<close> is the clock reading stored as access time; \<open>db_ok\<close> tells
  whether the database statement succeeds (a failure is logged and swallowed by the
  \<^verbatim>\<open>except\<close> clause). The hash is written into the entry before it is stored.
\<close>

definition AdvancedCache_set ::
  "(string \<Rightarrow> string) \<Rightarrow> AdvancedCache \<Rightarrow> string \<Rightarrow> string \<Rightarrow> CachedResponse \<Rightarrow> real \<Rightarrow> bool
     \<Rightarrow> AdvancedCache" where
  "AdvancedCache_set sha256 c query_text context_text entry now db_ok =
     (let h = generate_hash sha256 query_text context_text;
          stored = entry\<lparr>query_hash := h\<rparr>;
          c1 = (if int (length (cache c)) \<ge> max_size c then evict_lru c else c);
          c2 = c1\<lparr>cache := AList.update h stored (cache c1),
                   access_times := AList.update h now (access_times c1)\<rparr>
      in if db_ok
         then c2\<lparr>db := (db c2)(h \<mapsto>
                  \<lparr>response_data = stored, row_timestamp = timestamp stored,
                   row_hit_count = hit_count stored, row_provider = provider stored,
                   row_model_used = model_used stored\<rparr>)\<rparr>
         else c2)"

text \<open>
  \<^verbatim>\<open>AdvancedCache.get\<close>, second half: the lookup in the database, entered when the memory
  has no live entry. With \<open>db_ok\<close> false the database raises at its first statement, which
  the \<^verbatim>\<open>except\<close> clause turns into \<^verbatim>\<open>return None\<close>.
\<close>

definition get_persistent ::
  "AdvancedCache \<Rightarrow> string \<Rightarrow> real \<Rightarrow> bool \<Rightarrow> AdvancedCache \<times> CachedResponse option" where
  "get_persistent c h now db_ok =
     (if \<not> db_ok then (c, None)
      else
        (case db c h of
           None \<Rightarrow> (c, None)
         | Some row \<Rightarrow>
             if now - row_timestamp row < ttl c then
               (let cached_response = (response_data row)\<lparr>hit_count := row_hit_count row + 1\<rparr>
                in (c\<lparr>cache := AList.update h cached_response (cache c),
                       access_times := AList.update h now (access_times c),
                       db := (db c)(h \<mapsto> row\<lparr>row_hit_count := row_hit_count row + 1\<rparr>)\<rparr>,
                    Some cached_response))
             else (c\<lparr>db := (db c)(h := None)\<rparr>, None)))"

text \<open>
  \<^verbatim>\<open>AdvancedCache.get\<close>; \<open>now\<close> is the clock reading of the call. The entry found in memory
  is the stored object, so incrementing its hit count changes the dictionary's entry as
  well.
\<close>

definition AdvancedCache_get ::
  "(string \<Rightarrow> string) \<Rightarrow> AdvancedCache \<Rightarrow> string \<Rightarrow> string \<Rightarrow> real \<Rightarrow> bool
     \<Rightarrow> AdvancedCache \<times> CachedResponse option" where
  "AdvancedCache_get sha256 c query_text context_text now db_ok =
     (let h = generate_hash sha256 query_text context_text in
      case map_of (cache c) h of
        Some entry \<Rightarrow>
          if now - timestamp entry < ttl c then
            (let entry' = entry\<lparr>hit_count := hit_count entry + 1\<rparr>
             in (c\<lparr>cache := AList.update h entry' (cache c),
                    access_times := AList.update h now (access_times c)\<rparr>,
                 Some entry'))
          else
            get_persistent
              (c\<lparr>cache := AList.delete h (cache c),
                 access_times := AList.delete h (access_times c)\<rparr>) h now db_ok
      | None \<Rightarrow> get_persistent c h now db_ok)"

text \<open>
  Every row of the table was written by \<^verbatim>\<open>set\<close>, which takes the \<^verbatim>\<open>timestamp\<close> column from
  the entry it pickles.
\<close>

definition db_consistent :: "AdvancedCache \<Rightarrow> bool" where
  "db_consistent c =
     (\<forall>h row. db c h = Some row \<longrightarrow> row_timestamp row = timestamp (response_data row))"

text \<open>
  For the examples: a cache of at most 100 entries with a TTL of one hour and an empty
  table, an entry created at time 1000, and a stand-in digest (the text itself).
\<close>

definition cache_example :: AdvancedCache where
  "cache_example = \<lparr>max_size = 100, ttl = 3600, cache = [], access_times = [], db = Map.empty\<rparr>"

definition entry_example :: CachedResponse where
  "entry_example =
     \<lparr>response = ''Test response'', provider = ''gemini'', model_used = ''gemini-pro'',
      timestamp = 1000, hit_count = 0, query_hash = [], confidence = 0\<rparr>"

definition digest_example :: "string \<Rightarrow> string" where
  "digest_example s = s"

section \<open>CircuitBreaker: lemmas\<close>

lemma call_closed_fail:
  assumes "state b = CLOSED" and "func w = (Raises e, w')"
  shows "call clock b func w =
           ((if failure_count b + 1 \<ge> failure_threshold b
             then b\<lparr>failure_count := failure_count b + 1,
                     last_failure_time := Some (clock w'), state := OPEN\<rparr>
             else b\<lparr>failure_count := failure_count b + 1,
                     last_failure_time := Some (clock w')\<rparr>), Raises e, w')"
  using assms by (simp add: call_def call_gate_def call_try_def Let_def)

lemma fails_inE:
  assumes "fails_in func w"
  obtains e w' where "func w = (Raises e, w')"
  using assms by (cases "func w"; cases "fst (func w)") (auto simp: fails_in_def)

text \<open>
  From a closed breaker with counter \<open>c\<close>, failing calls that stay below the threshold
  leave it closed with the counter advanced by their number.
\<close>

lemma call_seq_closed_below:
  assumes "state b = CLOSED"
    and "\<forall>(f, w) \<in> set cs. fails_in f w"
    and "failure_count b + int (length cs) < failure_threshold b"
  shows "state (fst (call_seq clock b cs)) = CLOSED
       \<and> failure_count (fst (call_seq clock b cs)) = failure_count b + int (length cs)
       \<and> failure_threshold (fst (call_seq clock b cs)) = failure_threshold b
       \<and> recovery_timeout (fst (call_seq clock b cs)) = recovery_timeout b"
  using assms
proof (induction cs arbitrary: b)
  case Nil
  then show ?case by simp
next
  case (Cons c cs)
  obtain f w where c: "c = (f, w)" by (cases c)
  from Cons.prems(2) c have "fails_in f w" by simp
  then obtain e w' where fw: "f w = (Raises e, w')" by (rule fails_inE)
  let ?b1 = "b\<lparr>failure_count := failure_count b + 1, last_failure_time := Some (clock w')\<rparr>"
  from Cons.prems(3) have below: "\<not> failure_count b + 1 \<ge> failure_threshold b" by simp
  have step: "call clock b f w = (?b1, Raises e, w')"
    using Cons.prems(1) fw below by (simp add: call_closed_fail)
  have "state ?b1 = CLOSED" using Cons.prems(1) by simp
  moreover have "\<forall>(f, w) \<in> set cs. fails_in f w" using Cons.prems(2) by simp
  moreover have "failure_count ?b1 + int (length cs) < failure_threshold ?b1"
    using Cons.prems(3) by simp
  ultimately have IH:
    "state (fst (call_seq clock ?b1 cs)) = CLOSED
     \<and> failure_count (fst (call_seq clock ?b1 cs)) = failure_count ?b1 + int (length cs)
     \<and> failure_threshold (fst (call_seq clock ?b1 cs)) = failure_threshold ?b1
     \<and> recovery_timeout (fst (call_seq clock ?b1 cs)) = recovery_timeout ?b1"
    by (rule Cons.IH)
  have "fst (call_seq clock b (c # cs)) = fst (call_seq clock ?b1 cs)"
    by (simp add: c step split: prod.splits)
  with IH show ?case by simp
qed

lemma call_seq_append:
  "call_seq clock b (cs @ ds) =
     (case call_seq clock b cs of
        (b', rs) \<Rightarrow> (case call_seq clock b' ds of (b'', rs') \<Rightarrow> (b'', rs @ rs')))"
  by (induction cs arbitrary: b) (auto split: prod.splits)

text \<open>An open breaker rejects a call made within the recovery timeout, untouched.\<close>

lemma call_open_within:
  assumes "state b = OPEN" and "last_failure_time b = Some t"
    and "clock w - t \<le> recovery_timeout b"
  shows "call clock b func w = (b, Raises CircuitBreakerOpenError, w)"
  using assms by (simp add: call_def call_gate_def)

lemma call_seq_open_within:
  assumes "state b = OPEN" and "last_failure_time b = Some t"
    and "\<forall>(g, v) \<in> set ds. clock v - t \<le> recovery_timeout b"
  shows "call_seq clock b ds = (b, map (\<lambda>(g, v). (Raises CircuitBreakerOpenError, v)) ds)"
  using assms(3)
proof (induction ds)
  case Nil
  then show ?case by simp
next
  case (Cons d ds)
  obtain g v where d: "d = (g, v)" by (cases d)
  from Cons.prems d have "clock v - t \<le> recovery_timeout b" by simp
  then have "call clock b g v = (b, Raises CircuitBreakerOpenError, v)"
    using assms(1,2) by (rule call_open_within [rotated 2])
  moreover have "call_seq clock b ds = (b, map (\<lambda>(g, v). (Raises CircuitBreakerOpenError, v)) ds)"
    using Cons by simp
  ultimately show ?case by (simp add: d)
qed

lemma call_open_after:
  assumes "state b = OPEN" and "last_failure_time b = Some t"
    and "clock w - t > recovery_timeout b"
  shows "call_gate clock b w = Inr (b\<lparr>state := HALF_OPEN, failure_count := 0\<rparr>)"
    and "call clock b func w = call_try clock (b\<lparr>state := HALF_OPEN, failure_count := 0\<rparr>) func w"
  using assms by (simp_all add: call_def call_gate_def)

lemma call_try_invokes:
  "snd (call_try clock b func w) = func w"
  by (cases "func w"; cases "fst (func w)") (auto simp: call_try_def Let_def)

text \<open>What a call does to a half-open breaker.\<close>

lemma call_half_open_success:
  assumes "state b = HALF_OPEN" and "func w = (Returns r, w')"
  shows "call clock b func w = (b\<lparr>state := CLOSED, failure_count := 0\<rparr>, Returns r, w')"
  using assms by (simp add: call_def call_gate_def call_try_def)

lemma call_half_open_failure:
  assumes "state b = HALF_OPEN" and "func w = (Raises e, w')"
  shows "call clock b func w =
           (b\<lparr>failure_count := failure_count b + 1, last_failure_time := Some (clock w'),
              state := (if failure_count b + 1 \<ge> failure_threshold b then OPEN else HALF_OPEN)\<rparr>,
            Raises e, w')"
  using assms by (simp add: call_def call_gate_def call_try_def Let_def)

section \<open>CircuitBreaker: the claims\<close>

text \<open>
  From a counter of zero. A breaker that is closed with its counter at zero, with a
  positive \<open>failure_threshold\<close>, is \<open>OPEN\<close> after \<open>failure_threshold\<close> calls in a row whose
  callable raises, and \<open>last_failure_time\<close> is the clock reading \<open>t\<close> taken after the last
  of them. From then on, every sequence of calls made at times within \<open>recovery_timeout\<close>
  of \<open>t\<close> raises \<^verbatim>\<open>CircuitBreakerOpenError\<close> at each call, leaving the breaker and the world
  of the call untouched, whatever the callable is: it is not invoked. A call made when
  more than \<open>recovery_timeout\<close> has elapsed since \<open>t\<close> first moves the breaker to \<open>HALF_OPEN\<close>
  with the counter reset to zero and then invokes the callable: the caller sees exactly
  the callable's outcome and world.
\<close>

theorem breaker_opens_after_threshold_failures:
  assumes closed: "state b = CLOSED" and zero: "failure_count b = 0"
    and pos: "0 < failure_threshold b"
    and len: "int (length cs) = failure_threshold b"
    and fail: "\<forall>(f, w) \<in> set cs. fails_in f w"
  shows "\<exists>t. state (fst (call_seq clock b cs)) = OPEN
           \<and> last_failure_time (fst (call_seq clock b cs)) = Some t
           \<and> t = clock (snd ((fst (last cs)) (snd (last cs))))
           \<and> recovery_timeout (fst (call_seq clock b cs)) = recovery_timeout b
           \<and> (\<forall>ds. (\<forall>(g, v) \<in> set ds. clock v - t \<le> recovery_timeout b) \<longrightarrow>
                  call_seq clock (fst (call_seq clock b cs)) ds =
                    (fst (call_seq clock b cs),
                     map (\<lambda>(g, v). (Raises CircuitBreakerOpenError, v)) ds))
           \<and> (\<forall>g v. clock v - t > recovery_timeout b \<longrightarrow>
                  call_gate clock (fst (call_seq clock b cs)) v =
                    Inr ((fst (call_seq clock b cs))\<lparr>state := HALF_OPEN, failure_count := 0\<rparr>)
                  \<and> call clock (fst (call_seq clock b cs)) g v =
                    call_try clock
                      ((fst (call_seq clock b cs))\<lparr>state := HALF_OPEN, failure_count := 0\<rparr>) g v
                  \<and> snd (call clock (fst (call_seq clock b cs)) g v) = g v)"
proof -
  from pos len have ne: "cs \<noteq> []" by auto
  define cs0 where "cs0 = butlast cs"
  obtain f w where lst: "last cs = (f, w)" by (cases "last cs")
  have cs: "cs = cs0 @ [(f, w)]"
    using ne lst by (simp add: cs0_def flip: lst)
  have fail0: "\<forall>(f, w) \<in> set cs0. fails_in f w" using fail cs by auto
  have "fails_in f w" using fail cs by auto
  then obtain e w' where fw: "f w = (Raises e, w')" by (rule fails_inE)
  have below: "failure_count b + int (length cs0) < failure_threshold b"
    using len cs zero by simp
  define b0 where "b0 = fst (call_seq clock b cs0)"
  have b0: "state b0 = CLOSED" "failure_count b0 = failure_count b + int (length cs0)"
    "failure_threshold b0 = failure_threshold b" "recovery_timeout b0 = recovery_timeout b"
    using call_seq_closed_below [OF closed fail0 below, of clock] by (simp_all add: b0_def)
  define b' where "b' = b0\<lparr>failure_count := failure_count b0 + 1,
                     last_failure_time := Some (clock w'), state := OPEN\<rparr>"
  have reach: "failure_count b0 + 1 \<ge> failure_threshold b0"
    using b0 len cs zero by simp
  have step: "call clock b0 f w = (b', Raises e, w')"
    using b0(1) fw reach by (simp add: call_closed_fail b'_def)
  have fin: "fst (call_seq clock b cs) = b'"
  proof -
    obtain rs where r0: "call_seq clock b cs0 = (b0, rs)"
      by (cases "call_seq clock b cs0") (simp add: b0_def)
    show ?thesis by (simp add: cs call_seq_append r0 step)
  qed
  have st: "state b' = OPEN" and lf: "last_failure_time b' = Some (clock w')"
    and rt: "recovery_timeout b' = recovery_timeout b"
    using b0(4) by (simp_all add: b'_def)
  have t: "clock w' = clock (snd ((fst (last cs)) (snd (last cs))))"
    by (simp add: lst fw)
  have within: "call_seq clock b' ds = (b', map (\<lambda>(g, v). (Raises CircuitBreakerOpenError, v)) ds)"
    if "\<forall>(g, v) \<in> set ds. clock v - clock w' \<le> recovery_timeout b" for ds :: "(('a \<Rightarrow> 'c outcome \<times> 'a) \<times> 'a) list"
    using st lf that rt by (intro call_seq_open_within) simp_all
  have after: "call_gate clock b' v = Inr (b'\<lparr>state := HALF_OPEN, failure_count := 0\<rparr>)
       \<and> call clock b' g v = call_try clock (b'\<lparr>state := HALF_OPEN, failure_count := 0\<rparr>) g v
       \<and> snd (call clock b' g v) = g v"
    if "clock v - clock w' > recovery_timeout b" for g :: "'a \<Rightarrow> 'd outcome \<times> 'a" and v
  proof -
    have gt: "clock v - clock w' > recovery_timeout b'" using that rt by simp
    show ?thesis
      using st lf gt by (simp add: call_def call_gate_def call_try_invokes)
  qed
  show ?thesis
    unfolding fin using st lf rt t within after by blast
qed

theorem breaker_opens_after_threshold_failures_witness:
  "state (CircuitBreaker_init 2 60) = CLOSED
   \<and> failure_count (CircuitBreaker_init 2 60) = 0
   \<and> 0 < failure_threshold (CircuitBreaker_init 2 60)
   \<and> int (length [(boom, 0), (boom, 1::real)]) = failure_threshold (CircuitBreaker_init 2 60)
   \<and> fails_in boom (0::real) \<and> fails_in boom (1::real)
   \<and> state (fst (call_seq (\<lambda>w. w) (CircuitBreaker_init 2 60) [(boom, 0), (boom, 1)])) = OPEN
   \<and> last_failure_time (fst (call_seq (\<lambda>w. w) (CircuitBreaker_init 2 60) [(boom, 0), (boom, 1)]))
       = Some 2
   \<and> snd (call_seq (\<lambda>w. w)
             (fst (call_seq (\<lambda>w. w) (CircuitBreaker_init 2 60) [(boom, 0), (boom, 1)]))
             [(fine, 30), (fine, 62)])
       = [(Raises CircuitBreakerOpenError, 30), (Raises CircuitBreakerOpenError, 62)]
   \<and> snd (call (\<lambda>w. w)
             (fst (call_seq (\<lambda>w. w) (CircuitBreaker_init 2 60) [(boom, 0), (boom, 1)]))
             fine 63)
       = (Returns (), 64)"
proof -
  let ?b = "CircuitBreaker_init 2 60"
  let ?cs = "[(boom, 0), (boom, 1::real)]"
  let ?b' = "fst (call_seq (\<lambda>w. w) ?b ?cs)"
  have h1: "state ?b = CLOSED" and h2: "failure_count ?b = 0"
    and h3: "0 < failure_threshold ?b" and h4: "int (length ?cs) = failure_threshold ?b"
    by (simp_all add: CircuitBreaker_init_def)
  have h5': "fails_in boom (0::real) \<and> fails_in boom (1::real)"
    by (simp add: fails_in_def boom_def)
  then have h5: "\<forall>(f, w) \<in> set ?cs. fails_in f w" by simp
  have rt: "recovery_timeout ?b = 60" by (simp add: CircuitBreaker_init_def)
  from breaker_opens_after_threshold_failures [OF h1 h2 h3 h4 h5, of "\<lambda>w. w"]
  obtain t where st: "state ?b' = OPEN" and lf: "last_failure_time ?b' = Some t"
    and t: "t = snd ((fst (last ?cs)) (snd (last ?cs)))"
    and within: "\<And>ds :: ((real \<Rightarrow> unit outcome \<times> real) \<times> real) list.
        (\<forall>(g, v) \<in> set ds. v - t \<le> recovery_timeout ?b) \<Longrightarrow>
          call_seq (\<lambda>w. w) ?b' ds = (?b', map (\<lambda>(g, v). (Raises CircuitBreakerOpenError, v)) ds)"
    and after: "\<And>(g :: real \<Rightarrow> unit outcome \<times> real) v. v - t > recovery_timeout ?b \<Longrightarrow>
          snd (call (\<lambda>w. w) ?b' g v) = g v"
    by blast
  have t2: "t = 2" using t by (simp add: boom_def)
  have w: "snd (call_seq (\<lambda>w. w) ?b' [(fine, 30), (fine, 62)])
             = [(Raises CircuitBreakerOpenError, 30), (Raises CircuitBreakerOpenError, 62)]"
    using within [of "[(fine, 30), (fine, 62)]"] by (simp add: t2 rt)
  have a: "snd (call (\<lambda>w. w) ?b' fine 63) = (Returns (), 64)"
    using after [of 63 fine] by (simp add: t2 rt fine_def)
  show ?thesis
    using h1 h2 h3 h4 h5' st lf t2 w a by simp
qed

text \<open>
  Claim C2 (the code departs from the claim). A closed breaker need not have its counter
  at zero: a success in state \<open>CLOSED\<close> leaves the counter alone, so with threshold 5 four
  failing calls and a successful one leave the breaker closed with counter 4. From there
  five calls in a row whose callable raises, at times 10, 100, 102, 104 and 106, are all
  let through and all fail, and the breaker ends \<open>HALF_OPEN\<close>, not \<open>OPEN\<close>: the first opens
  it, the second comes after the recovery timeout and is the probe, whose failure leaves
  the breaker \<open>HALF_OPEN\<close> with counter 1 (the departure of claim C1), and the last three
  pass the gate because the state is not \<open>OPEN\<close>.
\<close>

theorem threshold_failures_end_half_open:
  "call_seq (\<lambda>w. w) (CircuitBreaker_init 5 60)
      [(boom, 0), (boom, 1), (boom, 2), (boom, 3), (fine, 5)]
     = (\<lparr>failure_threshold = 5, recovery_timeout = 60, failure_count = 4,
         last_failure_time = Some 4, state = CLOSED\<rparr>,
        [(Raises (OtherException ''boom''), 1), (Raises (OtherException ''boom''), 2),
         (Raises (OtherException ''boom''), 3), (Raises (OtherException ''boom''), 4),
         (Returns (), 6)])
   \<and> fails_in boom (10::real) \<and> fails_in boom (100::real) \<and> fails_in boom (102::real)
   \<and> fails_in boom (104::real) \<and> fails_in boom (106::real)
   \<and> call_seq (\<lambda>w. w)
        \<lparr>failure_threshold = 5, recovery_timeout = 60, failure_count = 4,
         last_failure_time = Some 4, state = CLOSED\<rparr>
        [(boom, 10), (boom, 100), (boom, 102), (boom, 104), (boom, 106)]
     = (\<lparr>failure_threshold = 5, recovery_timeout = 60, failure_count = 4,
         last_failure_time = Some 107, state = HALF_OPEN\<rparr>,
        [(Raises (OtherException ''boom''), 11), (Raises (OtherException ''boom''), 101),
         (Raises (OtherException ''boom''), 103), (Raises (OtherException ''boom''), 105),
         (Raises (OtherException ''boom''), 107)])"
  by (simp add: CircuitBreaker_init_def call_def call_gate_def call_try_def boom_def fine_def
      fails_in_def Let_def)

text \<open>
  Claim C1 (the code departs from the claim). With the default threshold 5 and timeout 60,
  five failing calls open the breaker. The probe call made at time 100 is let through and
  fails: the counter, reset to 0 at the gate, becomes 1, which is below the threshold, so
  the breaker stays \<open>HALF_OPEN\<close> instead of opening again. The next call, at time 102, is
  let through as well and fails: the breaker is still \<open>HALF_OPEN\<close>, with counter 2. Only
  the success branch of \<^verbatim>\<open>call\<close> looks at \<open>HALF_OPEN\<close>; the failure branch compares the
  counter with the threshold in every state.
\<close>

theorem failed_probe_stays_half_open:
  "call_seq (\<lambda>w. w) (CircuitBreaker_init 5 60)
      [(boom, 0), (boom, 1), (boom, 2), (boom, 3), (boom, 4)]
     = (\<lparr>failure_threshold = 5, recovery_timeout = 60, failure_count = 5,
         last_failure_time = Some 5, state = OPEN\<rparr>,
        [(Raises (OtherException ''boom''), 1), (Raises (OtherException ''boom''), 2),
         (Raises (OtherException ''boom''), 3), (Raises (OtherException ''boom''), 4),
         (Raises (OtherException ''boom''), 5)])
   \<and> call (\<lambda>w. w)
        \<lparr>failure_threshold = 5, recovery_timeout = 60, failure_count = 5,
         last_failure_time = Some 5, state = OPEN\<rparr> boom 100
     = (\<lparr>failure_threshold = 5, recovery_timeout = 60, failure_count = 1,
         last_failure_time = Some 101, state = HALF_OPEN\<rparr>,
        Raises (OtherException ''boom''), 101)
   \<and> call (\<lambda>w. w)
        \<lparr>failure_threshold = 5, recovery_timeout = 60, failure_count = 1,
         last_failure_time = Some 101, state = HALF_OPEN\<rparr> boom 102
     = (\<lparr>failure_threshold = 5, recovery_timeout = 60, failure_count = 2,
         last_failure_time = Some 103, state = HALF_OPEN\<rparr>,
        Raises (OtherException ''boom''), 103)"
  by (simp add: CircuitBreaker_init_def call_def call_gate_def call_try_def boom_def Let_def)


section \<open>Rate limiter: lemmas\<close>


lemma check_rate_limit_rollover:
  assumes "now - last_request_time g > 60"
  shows "check_rate_limit g now =
           (if requests_per_minute g \<le> 0
            then (g\<lparr>request_count := 0, last_request_time := now\<rparr>, False)
            else (g\<lparr>request_count := 1, last_request_time := now\<rparr>, True))"
  using assms by (simp add: check_rate_limit_def Let_def)

lemma check_rate_limit_full:
  assumes "last_request_time g \<noteq> 0" and "now - last_request_time g \<le> 60"
    and "request_count g \<ge> requests_per_minute g"
  shows "check_rate_limit g now = (g, False)"
  using assms by (simp add: check_rate_limit_def Let_def)

lemma check_rate_limit_room:
  assumes "last_request_time g \<noteq> 0" and "now - last_request_time g \<le> 60"
    and "request_count g < requests_per_minute g"
  shows "check_rate_limit g now = (g\<lparr>request_count := request_count g + 1\<rparr>, True)"
  using assms by (simp add: check_rate_limit_def Let_def)

lemma check_rate_limit_seq_window:
  assumes "last_request_time g \<noteq> 0"
    and "\<forall>t \<in> set ts. t - last_request_time g \<le> 60"
  shows "check_rate_limit_seq g ts =
           (g\<lparr>request_count := request_count g
                  + int (min (length ts) (nat (requests_per_minute g - request_count g)))\<rparr>,
            replicate (min (length ts) (nat (requests_per_minute g - request_count g))) True
            @ replicate (length ts - nat (requests_per_minute g - request_count g)) False)"
  using assms
proof (induction ts arbitrary: g)
  case Nil
  then show ?case by simp
next
  case (Cons t ts)
  have in_window: "t - last_request_time g \<le> 60" using Cons.prems(2) by simp
  show ?case
  proof (cases "request_count g < requests_per_minute g")
    case False
    then have full: "request_count g \<ge> requests_per_minute g" by simp
    have step: "check_rate_limit g t = (g, False)"
      using Cons.prems(1) in_window full by (rule check_rate_limit_full)
    have rest: "\<forall>t \<in> set ts. t - last_request_time g \<le> 60" using Cons.prems(2) by simp
    show ?thesis
      using Cons.IH [OF Cons.prems(1) rest] full by (simp add: step)
  next
    case True
    let ?g' = "g\<lparr>request_count := request_count g + 1\<rparr>"
    have step: "check_rate_limit g t = (?g', True)"
      using Cons.prems(1) in_window True by (rule check_rate_limit_room)
    have l': "last_request_time ?g' \<noteq> 0" using Cons.prems(1) by simp
    have rest: "\<forall>t \<in> set ts. t - last_request_time ?g' \<le> 60" using Cons.prems(2) by simp
    obtain k where k: "nat (requests_per_minute g - request_count g) = Suc k"
      using True by (cases "nat (requests_per_minute g - request_count g)") auto
    then have k': "nat (requests_per_minute g - (request_count g + 1)) = k" by arith
    have ih: "check_rate_limit_seq ?g' ts =
                (g\<lparr>request_count := request_count g + 1 + int (min (length ts) k)\<rparr>,
                 replicate (min (length ts) k) True @ replicate (length ts - k) False)"
      using Cons.IH [OF l' rest] by (simp add: k')
    show ?thesis
      by (simp add: step k ih add.assoc)
  qed
qed

section \<open>Rate limiter: the claim\<close>

text \<open>
  Claim C7. One check, then a run of checks. (1) When more than 60 seconds have passed
  since \<open>last_request_time\<close> (the window start), the counter is reset to 0 and the window
  start set to the current time before the limit is looked at, so the attempt is allowed
  with the counter at 1 (rejected with the counter at 0 only if \<open>requests_per_minute\<close> is
  not positive). (2) Within the window, the attempt is rejected and nothing changes when
  the counter has reached \<open>requests_per_minute\<close>; otherwise the counter is incremented and
  the attempt allowed. (3) For every run of checks made within the window, exactly the
  first \<open>requests_per_minute - request_count\<close> are allowed and all later ones are rejected,
  with the window start unchanged. In (2) and (3) a window has started: \<open>last_request_time\<close>
  is not 0, the value that marks "no request yet" in the source.
\<close>


theorem rate_limit_window:
  "(now - last_request_time g > 60 \<longrightarrow>
      check_rate_limit g now =
        (if requests_per_minute g \<le> 0
         then (g\<lparr>request_count := 0, last_request_time := now\<rparr>, False)
         else (g\<lparr>request_count := 1, last_request_time := now\<rparr>, True)))
   \<and> (last_request_time g \<noteq> 0 \<and> now - last_request_time g \<le> 60 \<longrightarrow>
      check_rate_limit g now =
        (if request_count g \<ge> requests_per_minute g then (g, False)
         else (g\<lparr>request_count := request_count g + 1\<rparr>, True)))
   \<and> (last_request_time g \<noteq> 0 \<and> (\<forall>t \<in> set ts. t - last_request_time g \<le> 60) \<longrightarrow>
      check_rate_limit_seq g ts =
        (g\<lparr>request_count := request_count g
               + int (min (length ts) (nat (requests_per_minute g - request_count g)))\<rparr>,
         replicate (min (length ts) (nat (requests_per_minute g - request_count g))) True
         @ replicate (length ts - nat (requests_per_minute g - request_count g)) False))"
  using check_rate_limit_rollover [where g = g and now = now]
    check_rate_limit_full [where g = g and now = now]
    check_rate_limit_room [where g = g and now = now]
    check_rate_limit_seq_window [where g = g and ts = ts]
  by (cases "request_count g \<ge> requests_per_minute g") simp_all

theorem rate_limit_window_witness:
  "check_rate_limit gemini_two_per_minute 161
     = (gemini_two_per_minute\<lparr>request_count := 1, last_request_time := 161\<rparr>, True)
   \<and> check_rate_limit gemini_two_per_minute 130
     = (gemini_two_per_minute\<lparr>request_count := 1\<rparr>, True)
   \<and> check_rate_limit_seq gemini_two_per_minute [100, 110, 120, 160]
     = (gemini_two_per_minute\<lparr>request_count := 2\<rparr>, [True, True, False, False])"
proof -
  let ?g = gemini_two_per_minute
  have g: "last_request_time ?g = 100" "request_count ?g = 0" "requests_per_minute ?g = 2"
    by (simp_all add: gemini_two_per_minute_def gemini_default_def)
  have h1: "161 - last_request_time ?g > 60" by (simp add: g)
  have h2: "last_request_time ?g \<noteq> 0 \<and> 130 - last_request_time ?g \<le> 60" by (simp add: g)
  have h3: "last_request_time ?g \<noteq> 0
      \<and> (\<forall>t \<in> set [100, 110, 120, 160]. t - last_request_time ?g \<le> 60)" by (simp add: g)
  have a: "check_rate_limit ?g 161 = (?g\<lparr>request_count := 1, last_request_time := 161\<rparr>, True)"
    using rate_limit_window [of 161 ?g "[]"] h1 by (simp add: g)
  have b: "check_rate_limit ?g 130 = (?g\<lparr>request_count := 1\<rparr>, True)"
    using rate_limit_window [of 130 ?g "[]"] h2 by (simp add: g)
  have c: "check_rate_limit_seq ?g [100, 110, 120, 160]
             = (?g\<lparr>request_count := 2\<rparr>, [True, True, False, False])"
    using rate_limit_window [of 161 ?g "[100, 110, 120, 160]"] h3
    by (simp add: g numeral_eq_Suc)
  from a b c show ?thesis by simp
qed

section \<open>consult\_gemini and the breaker: lemmas\<close>

text \<open>
  The callable that \<^verbatim>\<open>consult_gemini\<close> hands to the breaker returns in every world, so
  \<^verbatim>\<open>call\<close> either rejects it at the gate or takes its success branch.
\<close>

lemma call_create_task:
  "call clock b (create_task coro) w = (b, Raises CircuitBreakerOpenError, w)
   \<or> call clock b (create_task coro) w = (b, Raises TypeError, w)
   \<or> call clock b (create_task coro) w = (b, Returns coro, w)
   \<or> call clock b (create_task coro) w = (b\<lparr>state := CLOSED, failure_count := 0\<rparr>, Returns coro, w)"
  by (cases "state b"; cases "last_failure_time b")
     (auto simp: call_def call_gate_def call_try_def create_task_def)

lemma call_create_task_breaker:
  "fst (call clock b (create_task coro) w) = b
   \<or> fst (call clock b (create_task coro) w) = b\<lparr>state := CLOSED, failure_count := 0\<rparr>"
  using call_create_task [of clock b coro w] by auto

lemma consult_gemini_breaker:
  "circuit_breaker (fst (consult_gemini clock md5 fmt mk g request w)) = circuit_breaker g
   \<or> circuit_breaker (fst (consult_gemini clock md5 fmt mk g request w))
       = (circuit_breaker g)\<lparr>state := CLOSED, failure_count := 0\<rparr>"
proof -
  obtain rc cached where c: "(if caching_enabled g
             then ResponseCache_get md5 (response_cache g) request (clock w)
             else (response_cache g, None)) = (rc, cached)"
    by (cases "(if caching_enabled g
             then ResponseCache_get md5 (response_cache g) request (clock w)
             else (response_cache g, None))")
  let ?g0 = "g\<lparr>response_cache := rc\<rparr>"
  obtain g1 ok where r: "check_rate_limit ?g0 (clock w) = (g1, ok)"
    by (cases "check_rate_limit ?g0 (clock w)")
  have g1: "circuit_breaker g1 = circuit_breaker g"
    using r by (auto simp: check_rate_limit_def Let_def split: if_splits)
  obtain b res w1 where k: "call clock (circuit_breaker g) (create_task (mk request)) w = (b, res, w1)"
    by (cases "call clock (circuit_breaker g) (create_task (mk request)) w")
  have b: "b = circuit_breaker g \<or> b = (circuit_breaker g)\<lparr>state := CLOSED, failure_count := 0\<rparr>"
    using call_create_task_breaker [of clock "circuit_breaker g" "mk request" w] k by simp
  have "circuit_breaker (fst (consult_gemini clock md5 fmt mk g request w)) = circuit_breaker g
        \<or> circuit_breaker (fst (consult_gemini clock md5 fmt mk g request w)) = b"
    by (simp add: consult_gemini_def c r g1 k Let_def
             split: bool.splits outcome.splits prod.splits option.splits)
  with b show ?thesis by auto
qed


lemma consult_seq_breaker:
  "circuit_breaker (fst (consult_seq clock md5 fmt mk g rs)) = circuit_breaker g
   \<or> circuit_breaker (fst (consult_seq clock md5 fmt mk g rs))
       = (circuit_breaker g)\<lparr>state := CLOSED, failure_count := 0\<rparr>"
proof (induction rs arbitrary: g)
  case Nil
  then show ?case by simp
next
  case (Cons a rs)
  obtain request w where a: "a = (request, w)" by (cases a)
  obtain g' r w' where c: "consult_gemini clock md5 fmt mk g request w = (g', r, w')"
    by (cases "consult_gemini clock md5 fmt mk g request w")
  have one: "circuit_breaker g' = circuit_breaker g
      \<or> circuit_breaker g' = (circuit_breaker g)\<lparr>state := CLOSED, failure_count := 0\<rparr>"
    using consult_gemini_breaker [of clock md5 fmt mk g request w] by (simp add: c)
  have rest: "fst (consult_seq clock md5 fmt mk g (a # rs)) = fst (consult_seq clock md5 fmt mk g' rs)"
    by (simp add: a c split: prod.splits)
  from Cons.IH [of g'] one show ?case
    unfolding rest by auto
qed

text \<open>
  With the default configuration and a provider whose every request fails, six
  consultations all raise \<^verbatim>\<open>GeminiAPIError\<close>, and the breaker is as \<^verbatim>\<open>__init__\<close> left it:
  closed, with counter 0.
\<close>

lemma consult_seq_provider_down:
  "consult_seq (\<lambda>w. w) (\<lambda>s. s) (\<lambda>r q. r) provider_down gemini_default
     [(some_request, 1000), (some_request, 1010), (some_request, 1020),
      (some_request, 1030), (some_request, 1040), (some_request, 1050)]
   = (gemini_default\<lparr>last_request_time := 1000, request_count := 6\<rparr>,
      [Raises GeminiAPIError, Raises GeminiAPIError, Raises GeminiAPIError,
       Raises GeminiAPIError, Raises GeminiAPIError, Raises GeminiAPIError])"
  by (simp add: consult_gemini_def gemini_default_def provider_down_def some_request_def
      ResponseCache_get_def hash_request_def check_rate_limit_def call_def call_gate_def
      call_try_def create_task_def CircuitBreaker_init_def consult_handler_def Let_def)

section \<open>consult\_gemini and the breaker: the claim\<close>

text \<open>
  Claim C9. The callable passed to \<^verbatim>\<open>CircuitBreaker.call\<close> by \<^verbatim>\<open>consult_gemini\<close> is
  \<open>create_task\<close> of the request coroutine: it fails in no world, whatever the request
  does when it runs later. So for every provider behaviour \<open>mk\<close> (failing ones included),
  after one consultation, and after any run of consultations, the breaker is either
  unchanged or has been moved to \<open>CLOSED\<close> with the counter reset to 0: the failure counter
  is never incremented, \<open>last_failure_time\<close> is never written, and no consultation moves the
  state to \<open>OPEN\<close>.
\<close>


theorem consult_gemini_never_counts_failures:
  "\<not> fails_in (create_task (mk request)) w
   \<and> (circuit_breaker (fst (consult_gemini clock md5 fmt mk g request w)) = circuit_breaker g
      \<or> circuit_breaker (fst (consult_gemini clock md5 fmt mk g request w))
          = (circuit_breaker g)\<lparr>state := CLOSED, failure_count := 0\<rparr>)
   \<and> (circuit_breaker (fst (consult_seq clock md5 fmt mk g rs)) = circuit_breaker g
      \<or> circuit_breaker (fst (consult_seq clock md5 fmt mk g rs))
          = (circuit_breaker g)\<lparr>state := CLOSED, failure_count := 0\<rparr>)
   \<and> last_failure_time (circuit_breaker (fst (consult_seq clock md5 fmt mk g rs)))
       = last_failure_time (circuit_breaker g)"
proof -
  have "\<not> fails_in (create_task (mk request)) w"
    by (simp add: fails_in_def create_task_def)
  moreover note consult_gemini_breaker [of clock md5 fmt mk g request w]
  moreover note s = consult_seq_breaker [of clock md5 fmt mk g rs]
  moreover have "last_failure_time (circuit_breaker (fst (consult_seq clock md5 fmt mk g rs)))
       = last_failure_time (circuit_breaker g)"
    using s by auto
  ultimately show ?thesis by blast
qed

section \<open>Adaptive timeout: examples and the claim\<close>

text \<open>\<^verbatim>\<open>str.split\<close> on a query with a double space and a trailing space.\<close>

lemma str_split_example:
  "str_split ''What is  dependency injection? ''
     = [''What'', ''is'', ''dependency'', ''injection?'']"
  by (simp add: str_split_def isspace_def)

text \<open>
  The short FAQ query of the specification's scenario, with the default total of 60
  seconds: \<open>30 * 0.7 * 0.6 = 12.6\<close> seconds.
\<close>

lemma timeout_example:
  "calculate_adaptive_timeout 60
     \<lparr>query = ''What is dependency injection?'', context' = '''', uncertainty_detected = False,
      confidence_score = 0, pattern_type = FAQ\<rparr> = 12.6"
  by (simp add: calculate_adaptive_timeout_def str_split_def isspace_def
      pattern_multipliers_def Let_def)

text \<open>
  The words that \<^verbatim>\<open>split\<close> returns are as many as the text has word starts, and a text
  made of words joined by single spaces splits into these words.
\<close>


lemma length_split_from:
  "length (split_from s word) =
     (if word = [] then count_word_starts True s else 1 + count_word_starts False s)"
  by (induction s arbitrary: word) simp_all

lemma length_str_split: "length (str_split s) = word_count s"
  by (simp add: str_split_def word_count_def length_split_from)

lemma split_from_word:
  "\<forall>c \<in> set w. \<not> isspace c \<Longrightarrow> split_from (w @ s) acc = split_from s (acc @ w)"
  by (induction w arbitrary: acc) simp_all

lemma isspace_space: "isspace CHR '' ''"
  by (simp add: isspace_def)

lemma split_from_join_words:
  assumes "\<forall>w \<in> set ws. w \<noteq> [] \<and> (\<forall>c \<in> set w. \<not> isspace c)"
  shows "split_from (join_words ws) [] = ws"
  using assms
proof (induction ws rule: join_words.induct)
  case 1
  then show ?case by simp
next
  case (2 w)
  then have "\<forall>c \<in> set w. \<not> isspace c" and "w \<noteq> []" by simp_all
  then show ?case
    using split_from_word [of w "[]" "[]"] by simp
next
  case (3 w v ws)
  then have w: "\<forall>c \<in> set w. \<not> isspace c" "w \<noteq> []" by simp_all
  have rest: "split_from (join_words (v # ws)) [] = v # ws"
    using 3 by simp
  have "split_from (join_words (w # v # ws)) []
          = split_from (CHR '' '' # join_words (v # ws)) w"
    using split_from_word [OF w(1), of "CHR '' '' # join_words (v # ws)" "[]"] by simp
  also have "\<dots> = w # split_from (join_words (v # ws)) []"
    using w(2) by (simp add: isspace_space)
  finally show ?case by (simp add: rest)
qed

lemma str_split_join_words:
  assumes "\<forall>w \<in> set ws. w \<noteq> [] \<and> (\<forall>c \<in> set w. \<not> isspace c)"
  shows "str_split (join_words ws) = ws"
  using assms by (simp add: str_split_def split_from_join_words)

text \<open>
  Claim C8. For every total timeout and every request, the adaptive timeout is
  \<open>clamp(baseTimeout * lengthFactor * patternMultiplier, 10, 120)\<close> with
  \<open>baseTimeout = timeout_total / 2\<close>, the length factor 1.5 above 50 words, 0.7 below 10
  words and 1 otherwise, and the multiplier of the request's pattern (0.6 for FAQ, 1.5 for
  CREATIVE); so it always lies between 10 and 120 seconds. The number of words is the
  number of word starts of the query, which is the length of what \<^verbatim>\<open>split\<close> returns; for
  a query made of \<open>n\<close> words joined by spaces it is \<open>n\<close>, and runs of spaces, tabs and line
  feeds separate words without making any.
\<close>

theorem adaptive_timeout_clamped:
  "calculate_adaptive_timeout timeout_total request
     = clamp (timeout_total / 2 * length_factor (word_count (query request))
                * pattern_multipliers (pattern_type request)) 10 120
   \<and> 10 \<le> calculate_adaptive_timeout timeout_total request
   \<and> calculate_adaptive_timeout timeout_total request \<le> 120
   \<and> pattern_multipliers FAQ = 0.6 \<and> pattern_multipliers CREATIVE = 1.5
   \<and> length (str_split (query request)) = word_count (query request)
   \<and> ((\<forall>w \<in> set ws. w \<noteq> [] \<and> (\<forall>c \<in> set w. \<not> isspace c)) \<longrightarrow>
        str_split (join_words ws) = ws \<and> word_count (join_words ws) = length ws)
   \<and> str_split [CHR 0x20, CHR ''W'', CHR ''h'', CHR ''y'', CHR 0x09, CHR 0x20, CHR ''n'',
                 CHR ''o'', CHR ''t'', CHR ''?'', CHR 0x0A]
       = [''Why'', ''not?'']"
proof -
  have eq: "calculate_adaptive_timeout timeout_total request
     = clamp (timeout_total / 2 * length_factor (word_count (query request))
                * pattern_multipliers (pattern_type request)) 10 120"
    by (simp add: calculate_adaptive_timeout_def clamp_def length_factor_def
        length_str_split Let_def)
  have bounds: "10 \<le> calculate_adaptive_timeout timeout_total request
      \<and> calculate_adaptive_timeout timeout_total request \<le> 120"
    by (simp add: calculate_adaptive_timeout_def Let_def)
  have mult: "pattern_multipliers FAQ = 0.6 \<and> pattern_multipliers CREATIVE = 1.5"
    by (simp add: pattern_multipliers_def)
  have words: "str_split (join_words ws) = ws \<and> word_count (join_words ws) = length ws"
    if "\<forall>w \<in> set ws. w \<noteq> [] \<and> (\<forall>c \<in> set w. \<not> isspace c)"
    using str_split_join_words [OF that] length_str_split [of "join_words ws"] by simp
  have ex: "str_split [CHR 0x20, CHR ''W'', CHR ''h'', CHR ''y'', CHR 0x09, CHR 0x20, CHR ''n'',
                 CHR ''o'', CHR ''t'', CHR ''?'', CHR 0x0A]
       = [''Why'', ''not?'']"
    by (simp add: str_split_def isspace_def)
  from eq bounds mult length_str_split [of "query request"] words ex show ?thesis
    by blast
qed

theorem adaptive_timeout_clamped_witness:
  "calculate_adaptive_timeout 60 (query_request (join_words (replicate 51 ''w'')) GENERAL) = 45
   \<and> calculate_adaptive_timeout 60 (query_request (join_words (replicate 50 ''w'')) GENERAL) = 30
   \<and> calculate_adaptive_timeout 60 (query_request (join_words (replicate 10 ''w'')) CREATIVE) = 45
   \<and> calculate_adaptive_timeout 60 (query_request (join_words (replicate 9 ''w'')) FAQ) = 12.6
   \<and> calculate_adaptive_timeout 1000 (query_request (join_words (replicate 51 ''w'')) CREATIVE)
       = 120
   \<and> calculate_adaptive_timeout 10 (query_request (join_words (replicate 9 ''w'')) FAQ) = 10"
proof -
  have w: "\<forall>v \<in> set (replicate n ''w''). v \<noteq> [] \<and> (\<forall>c \<in> set v. \<not> isspace c)" for n
    by (auto simp: isspace_def)
  have wc: "word_count (join_words (replicate n ''w'')) = n" for n
    using adaptive_timeout_clamped [where ws = "replicate n ''w''"] w [of n] by simp
  have q: "query (query_request s p) = s" "pattern_type (query_request s p) = p" for s p
    by (simp_all add: query_request_def)
  have t: "calculate_adaptive_timeout tt (query_request (join_words (replicate n ''w'')) p)
             = clamp (tt / 2 * length_factor n * pattern_multipliers p) 10 120" for tt n p
    using adaptive_timeout_clamped [where timeout_total = tt
        and request = "query_request (join_words (replicate n ''w'')) p", THEN conjunct1]
    by (simp add: q wc)
  show ?thesis
    by (simp add: t clamp_def length_factor_def pattern_multipliers_def)
qed

section \<open>Provider statistics: lemmas\<close>

lemma update_counters:
  "requests (stats_of (update_provider_stats_optimized ps p ok rt) p) = requests (stats_of ps p) + 1"
  "successes (stats_of (update_provider_stats_optimized ps p ok rt) p)
     = successes (stats_of ps p) + (if ok then 1 else 0)"
  "failures (stats_of (update_provider_stats_optimized ps p ok rt) p)
     = failures (stats_of ps p) + (if ok then 0 else 1)"
  by (simp_all add: update_provider_stats_optimized_def stats_of_def Let_def)

lemma update_others:
  "q \<noteq> p \<Longrightarrow> update_provider_stats_optimized ps p ok rt q = ps q"
  by (simp add: update_provider_stats_optimized_def Let_def)

lemma update_others_stats:
  "q \<noteq> p \<Longrightarrow> stats_of (update_provider_stats_optimized ps p ok rt) q = stats_of ps q"
  by (simp add: stats_of_def update_others)

lemma update_stored:
  "update_provider_stats_optimized ps p ok rt p
     = Some (stats_of (update_provider_stats_optimized ps p ok rt) p)"
  by (simp add: update_provider_stats_optimized_def stats_of_def Let_def)

lemma update_counted:
  assumes "\<And>q. counted (stats_of ps q)"
  shows "counted (stats_of (update_provider_stats_optimized ps p ok rt) q)"
proof (cases "q = p")
  case True
  then show ?thesis using assms [of p] by (simp add: counted_def update_counters)
next
  case False
  then show ?thesis using assms [of q] by (simp add: update_others_stats)
qed

lemma update_seq_counted:
  assumes "\<And>q. counted (stats_of ps q)"
  shows "counted (stats_of (update_provider_stats_seq ps us) q)"
  using assms
proof (induction us arbitrary: ps)
  case Nil
  then show ?case by simp
next
  case (Cons u us)
  obtain p ok rt where u: "u = (p, ok, rt)" by (cases u)
  show ?case
    unfolding u update_provider_stats_seq.simps
    by (rule Cons.IH) (rule update_counted, rule Cons.prems)
qed

lemma update_mono:
  "requests (stats_of ps q) \<le> requests (stats_of (update_provider_stats_optimized ps p ok rt) q)
   \<and> successes (stats_of ps q) \<le> successes (stats_of (update_provider_stats_optimized ps p ok rt) q)
   \<and> failures (stats_of ps q) \<le> failures (stats_of (update_provider_stats_optimized ps p ok rt) q)"
  by (cases "q = p") (simp_all add: update_counters update_others_stats)

lemma update_seq_mono:
  "requests (stats_of ps q) \<le> requests (stats_of (update_provider_stats_seq ps us) q)
   \<and> successes (stats_of ps q) \<le> successes (stats_of (update_provider_stats_seq ps us) q)
   \<and> failures (stats_of ps q) \<le> failures (stats_of (update_provider_stats_seq ps us) q)"
proof (induction us arbitrary: ps)
  case Nil
  then show ?case by simp
next
  case (Cons u us)
  obtain p ok rt where u: "u = (p, ok, rt)" by (cases u)
  show ?case
    using update_mono [of ps q p ok rt]
      Cons.IH [of "update_provider_stats_optimized ps p ok rt"]
    by (simp add: u)
qed

section \<open>Provider statistics: the claim\<close>

text \<open>
  Claim C10. An update of a provider's statistics adds 1 to its \<open>requests\<close> and 1 to
  exactly one of \<open>successes\<close> (on success) and \<open>failures\<close> (otherwise), stores the result under
  the provider and leaves every other provider's entry alone; so \<open>requests = successes +
  failures\<close> is preserved by one update and by every run of updates, and no counter of any
  provider is ever lower after a run of updates than before. The update is the only
  operation of the source that writes \<^verbatim>\<open>provider_stats\<close>.
\<close>

theorem provider_stats_counters:
  "requests (stats_of (update_provider_stats_optimized ps p ok rt) p) = requests (stats_of ps p) + 1
   \<and> successes (stats_of (update_provider_stats_optimized ps p ok rt) p)
       = successes (stats_of ps p) + (if ok then 1 else 0)
   \<and> failures (stats_of (update_provider_stats_optimized ps p ok rt) p)
       = failures (stats_of ps p) + (if ok then 0 else 1)
   \<and> update_provider_stats_optimized ps p ok rt p
       = Some (stats_of (update_provider_stats_optimized ps p ok rt) p)
   \<and> (\<forall>q. q \<noteq> p \<longrightarrow> update_provider_stats_optimized ps p ok rt q = ps q)
   \<and> (counted (stats_of ps p) \<longrightarrow>
        counted (stats_of (update_provider_stats_optimized ps p ok rt) p))
   \<and> ((\<forall>q. counted (stats_of ps q)) \<longrightarrow>
        (\<forall>q. counted (stats_of (update_provider_stats_seq ps us) q)))
   \<and> (\<forall>q. requests (stats_of ps q) \<le> requests (stats_of (update_provider_stats_seq ps us) q)
          \<and> successes (stats_of ps q) \<le> successes (stats_of (update_provider_stats_seq ps us) q)
          \<and> failures (stats_of ps q) \<le> failures (stats_of (update_provider_stats_seq ps us) q))"
proof -
  have one: "counted (stats_of ps p) \<longrightarrow>
        counted (stats_of (update_provider_stats_optimized ps p ok rt) p)"
    by (simp add: counted_def update_counters)
  have run: "(\<forall>q. counted (stats_of ps q)) \<longrightarrow>
        (\<forall>q. counted (stats_of (update_provider_stats_seq ps us) q))"
    using update_seq_counted [of ps us] by blast
  show ?thesis
    using one run update_seq_mono [of ps _ us] update_others [of _ p ps ok rt]
    by (simp add: update_counters update_stored [symmetric])
qed

theorem provider_stats_counters_witness:
  "stats_of (update_provider_stats_optimized provider_stats_init ''gemini'' True 2) ''gemini''
     = \<lparr>requests = 1, successes = 1, failures = 0, avg_time = 2, min_time = Finite 2,
        max_time = 2, recent_times = [2]\<rparr>
   \<and> update_provider_stats_optimized provider_stats_init ''gemini'' True 2 ''llama2''
     = Some new_stats
   \<and> counted (stats_of provider_stats_init ''gemini'')
   \<and> counted (stats_of (update_provider_stats_optimized provider_stats_init ''gemini'' True 2)
        ''gemini'')
   \<and> counted (stats_of (update_provider_stats_seq provider_stats_init
        [(''gemini'', True, 2), (''llama2'', False, 3), (''gemini'', False, 4)]) ''gemini'')
   \<and> requests (stats_of (update_provider_stats_seq provider_stats_init
        [(''gemini'', True, 2), (''llama2'', False, 3), (''gemini'', False, 4)]) ''gemini'') = 2"
proof -
  let ?ps = provider_stats_init
  let ?us = "[(''gemini'', True, 2), (''llama2'', False, 3), (''gemini'', False, 4)]"
  have c0: "counted (stats_of ?ps q)" for q
    by (simp add: counted_def stats_of_def provider_stats_init_def new_stats_def)
  have ne: "''llama2'' \<noteq> ''gemini''" by simp
  note t = provider_stats_counters [of ?ps "''gemini''" True 2 ?us]
  have a: "stats_of (update_provider_stats_optimized ?ps ''gemini'' True 2) ''gemini''
     = \<lparr>requests = 1, successes = 1, failures = 0, avg_time = 2, min_time = Finite 2,
        max_time = 2, recent_times = [2]\<rparr>"
    by (simp add: update_provider_stats_optimized_def stats_of_def provider_stats_init_def
        new_stats_def deque_append_def min_with_def Let_def)
  have b: "update_provider_stats_optimized ?ps ''gemini'' True 2 ''llama2'' = Some new_stats"
    using t ne by (simp add: provider_stats_init_def)
  have c: "counted (stats_of (update_provider_stats_optimized ?ps ''gemini'' True 2) ''gemini'')"
    using t c0 by blast
  have d: "counted (stats_of (update_provider_stats_seq ?ps ?us) ''gemini'')"
    using t c0 by blast
  have e: "requests (stats_of (update_provider_stats_seq ?ps ?us) ''gemini'') = 2"
    by (simp add: update_provider_stats_optimized_def stats_of_def provider_stats_init_def
        new_stats_def Let_def)
  from a b c0 c d e show ?thesis by simp
qed

section \<open>Adaptive provider selection: lemmas\<close>

text \<open>
  The loop returns a score that bounds every score it has seen, and either its starting
  pair or a provider of the list together with that provider's score.
\<close>


lemma adaptive_loop_inv:
  "(case adaptive_loop ps pat xs (bp, bs) of
      (bp', bs') \<Rightarrow>
        bs \<le> bs' \<and> (\<forall>q \<in> set xs. final_score ps pat q \<le> bs')
        \<and> ((bp', bs') = (bp, bs) \<or> (bp' \<in> set xs \<and> bs' = final_score ps pat bp')))"
proof (induction xs arbitrary: bp bs)
  case Nil
  then show ?case by simp
next
  case (Cons x xs)
  show ?case
  proof (cases "final_score ps pat x > bs")
    case True
    with Cons.IH [where bp = x and bs = "final_score ps pat x"] show ?thesis
      by (auto split: prod.splits)
  next
    case False
    with Cons.IH [where bp = bp and bs = bs] show ?thesis
      by (auto split: prod.splits)
  qed
qed

lemma final_score_nonneg:
  assumes "\<And>st. ps p = Some st \<Longrightarrow> 0 \<le> requests st \<and> 0 \<le> successes st"
  shows "0 \<le> final_score ps pat p"
proof (cases "ps p")
  case None
  then show ?thesis by (simp add: final_score_def)
next
  case (Some st)
  with assms have "0 \<le> requests st" "0 \<le> successes st" by auto
  then have "0 \<le> real_of_int (successes st) / real_of_int (requests st)" by simp
  moreover have "0 \<le> 0.7 + 0.3 * max 0.1 ((10 - min (avg_time st) 10) / 10)"
    by (simp add: max_def)
  ultimately have "0 \<le> real_of_int (successes st) / real_of_int (requests st)
                     * (0.7 + 0.3 * max 0.1 ((10 - min (avg_time st) 10) / 10))"
    by (rule mult_nonneg_nonneg)
  then show ?thesis
    using Some by (simp add: final_score_def Let_def)
qed

lemma final_score_formula:
  "final_score ps pat p =
     (case ps p of
        None \<Rightarrow> 0.5 * (if spec_favored pat p then 1.2 else 1)
      | Some st \<Rightarrow>
          if requests st = 0 then 0.5 * (if spec_favored pat p then 1.2 else 1)
          else if 0 \<le> avg_time st then spec_score st pat p
          else real_of_int (successes st) / real_of_int (requests st)
                 * (0.7 + 0.3 * ((10 - avg_time st) / 10))
                 * (if spec_favored pat p then 1.2 else 1))"
  by (cases pat) (auto simp: final_score_def spec_score_def spec_success_rate_def spec_favored_def
      clamp_def Let_def max_def min_def split: option.splits)

section \<open>Adaptive provider selection: the claim\<close>

text \<open>
  Claim C3, as stated, fails for a provider without history. The claim gives such a
  provider the success rate 1.0, hence (with average latency 0) the score 1; the source
  gives it the base score 0.5. With \<^verbatim>\<open>gemini\<close> fresh and \<^verbatim>\<open>llama2\<close> at 8 successes in 10
  requests and one second on average (score 0.776), the source returns \<^verbatim>\<open>llama2\<close>, while by
  the claim's formula \<^verbatim>\<open>gemini\<close> would score highest.
\<close>

theorem zero_history_score_counterexample:
  "final_score provider_stats_init GENERAL ''gemini'' = 0.5
   \<and> spec_score new_stats GENERAL ''gemini'' = 1
   \<and> final_score provider_stats_init GENERAL ''gemini'' \<noteq> spec_score new_stats GENERAL ''gemini''
   \<and> spec_score stats_8_of_10 GENERAL ''llama2'' < spec_score new_stats GENERAL ''gemini''
   \<and> get_adaptive_provider (provider_stats_init(''llama2'' \<mapsto> stats_8_of_10))
        [''gemini'', ''llama2''] GENERAL = Inr ''llama2''"
  by (simp add: final_score_def provider_stats_init_def new_stats_def spec_score_def
      spec_success_rate_def spec_favored_def clamp_def stats_8_of_10_def
      get_adaptive_provider_def Let_def)

text \<open>
  Claim C3, amended. For a non-empty list of available providers whose recorded counters
  and average latency are not negative: the score of each provider is
  \<open>successRate * (0.7 + 0.3 * speedFactor)\<close> with \<open>successRate = successes / requests\<close> and
  \<open>speedFactor = clamp((10 - avgLatency)/10, 0.1, 1)\<close> when it has recorded requests, and
  0.5 when it has none (or no entry), times 1.2 when the provider is favored for the
  pattern (gemini for FAQ and DEBUG, llama2 for CREATIVE); and the provider returned is one
  of the list whose score no other provider of the list exceeds.
\<close>

theorem adaptive_provider_choice:
  assumes ne: "available \<noteq> []"
    and sane: "\<forall>p \<in> set available. \<forall>st. ps p = Some st \<longrightarrow>
                 0 \<le> requests st \<and> 0 \<le> successes st \<and> 0 \<le> avg_time st"
  shows "(\<forall>p \<in> set available.
            final_score ps pat p =
              (case ps p of
                 None \<Rightarrow> 0.5 * (if spec_favored pat p then 1.2 else 1)
               | Some st \<Rightarrow>
                   if requests st = 0 then 0.5 * (if spec_favored pat p then 1.2 else 1)
                   else spec_score st pat p))
       \<and> (\<exists>r. get_adaptive_provider ps available pat = Inr r \<and> r \<in> set available
              \<and> (\<forall>q \<in> set available. final_score ps pat q \<le> final_score ps pat r))"
proof -
  have formula: "final_score ps pat p =
              (case ps p of
                 None \<Rightarrow> 0.5 * (if spec_favored pat p then 1.2 else 1)
               | Some st \<Rightarrow>
                   if requests st = 0 then 0.5 * (if spec_favored pat p then 1.2 else 1)
                   else spec_score st pat p)" if "p \<in> set available" for p
    using sane that by (subst final_score_formula) (auto split: option.splits)
  have nonneg: "0 \<le> final_score ps pat p" if "p \<in> set available" for p
    using sane that by (intro final_score_nonneg) auto
  obtain first rest where av: "available = first # rest"
    using ne by (cases available) auto
  have choice: "\<exists>r. get_adaptive_provider ps available pat = Inr r \<and> r \<in> set available
              \<and> (\<forall>q \<in> set available. final_score ps pat q \<le> final_score ps pat r)"
  proof (cases "rest = []")
    case True
    then show ?thesis by (simp add: get_adaptive_provider_def av)
  next
    case False
    obtain bp bs where loop: "adaptive_loop ps pat available (first, 0) = (bp, bs)"
      by (cases "adaptive_loop ps pat available (first, 0)")
    have res: "get_adaptive_provider ps available pat = Inr bp"
      using False loop by (simp add: get_adaptive_provider_def av)
    from adaptive_loop_inv [where ps = ps and pat = pat and xs = available and bp = first and bs = 0] loop
    have le: "\<forall>q \<in> set available. final_score ps pat q \<le> bs"
      and alt: "(bp, bs) = (first, 0) \<or> (bp \<in> set available \<and> bs = final_score ps pat bp)"
      by auto
    from alt show ?thesis
    proof
      assume "(bp, bs) = (first, 0)"
      then have bp: "bp = first" and bs: "bs = 0" by simp_all
      have "first \<in> set available" by (simp add: av)
      then have "0 \<le> final_score ps pat first" by (rule nonneg)
      with le bs bp res show ?thesis by (auto simp: av)
    next
      assume "bp \<in> set available \<and> bs = final_score ps pat bp"
      with le res show ?thesis by auto
    qed
  qed
  from formula choice show ?thesis by blast
qed

theorem adaptive_provider_choice_witness:
  "[''gemini'', ''llama2''] \<noteq> []
   \<and> final_score (provider_stats_init(''llama2'' \<mapsto> stats_8_of_10)) GENERAL ''gemini'' = 0.5
   \<and> final_score (provider_stats_init(''llama2'' \<mapsto> stats_8_of_10)) GENERAL ''llama2''
       = spec_score stats_8_of_10 GENERAL ''llama2''
   \<and> spec_score stats_8_of_10 GENERAL ''llama2'' = 0.776
   \<and> get_adaptive_provider (provider_stats_init(''llama2'' \<mapsto> stats_8_of_10))
        [''gemini'', ''llama2''] GENERAL = Inr ''llama2''"
proof -
  let ?ps = "provider_stats_init(''llama2'' \<mapsto> stats_8_of_10)"
  let ?av = "[''gemini'', ''llama2'']"
  have ne: "?av \<noteq> []" by simp
  have sane: "\<forall>p \<in> set ?av. \<forall>st. ?ps p = Some st \<longrightarrow>
                 0 \<le> requests st \<and> 0 \<le> successes st \<and> 0 \<le> avg_time st"
    by (simp add: provider_stats_init_def new_stats_def stats_8_of_10_def)
  note t = adaptive_provider_choice [OF ne sane, of GENERAL]
  have lg: "?ps ''gemini'' = Some new_stats" and ll: "?ps ''llama2'' = Some stats_8_of_10"
    by (simp_all add: provider_stats_init_def)
  from t have sc: "final_score ?ps GENERAL p =
              (case ?ps p of
                 None \<Rightarrow> 0.5 * (if spec_favored GENERAL p then 1.2 else 1)
               | Some st \<Rightarrow>
                   if requests st = 0 then 0.5 * (if spec_favored GENERAL p then 1.2 else 1)
                   else spec_score st GENERAL p)" if "p \<in> set ?av" for p
    using that by blast
  have g: "final_score ?ps GENERAL ''gemini'' = 0.5"
    by (subst sc) (simp_all only: lg, simp_all add: new_stats_def spec_favored_def)
  have l: "final_score ?ps GENERAL ''llama2'' = spec_score stats_8_of_10 GENERAL ''llama2''"
    by (subst sc) (simp_all only: ll, simp_all add: stats_8_of_10_def)
  have v: "spec_score stats_8_of_10 GENERAL ''llama2'' = 0.776"
    by (simp add: spec_score_def spec_success_rate_def spec_favored_def clamp_def stats_8_of_10_def)
  from t obtain r where r: "get_adaptive_provider ?ps ?av GENERAL = Inr r" and "r \<in> set ?av"
    and mx: "\<forall>q \<in> set ?av. final_score ?ps GENERAL q \<le> final_score ?ps GENERAL r"
    by blast
  then have "r = ''gemini'' \<or> r = ''llama2''" by simp
  moreover have "r \<noteq> ''gemini''"
  proof
    assume "r = ''gemini''"
    with mx have "final_score ?ps GENERAL ''llama2'' \<le> final_score ?ps GENERAL ''gemini''" by simp
    with g l v show False by simp
  qed
  ultimately have "r = ''llama2''" by simp
  with r ne g l v show ?thesis by simp
qed

section \<open>Cache key: lemmas\<close>

text \<open>
  Lower-casing neither makes nor removes white space, so it commutes with trimming, and
  both are idempotent.
\<close>


lemma isspace_lower_char: "isspace (lower_char c) = isspace c"
proof -
  have "of_char (char_of (of_char c + 32 :: nat)) = (of_char c + 32 :: nat)"
    if "(of_char c :: nat) \<le> 90"
    using that by (simp add: of_char_of)
  then show ?thesis
    by (auto simp: isspace_def lower_char_def Let_def)
qed

lemma lower_char_idem: "lower_char (lower_char c) = lower_char c"
proof -
  have "of_char (char_of (of_char c + 32 :: nat)) = (of_char c + 32 :: nat)"
    if "(of_char c :: nat) \<le> 90"
    using that by (simp add: of_char_of)
  then show ?thesis
    by (auto simp: lower_char_def Let_def)
qed

lemma str_lower_idem: "str_lower (str_lower s) = str_lower s"
  by (simp add: str_lower_def lower_char_idem)

lemma dropWhile_isspace_lower:
  "dropWhile isspace (str_lower s) = str_lower (dropWhile isspace s)"
  by (induction s) (simp_all add: str_lower_def isspace_lower_char)

lemma str_strip_lower: "str_strip (str_lower s) = str_lower (str_strip s)"
proof -
  have "rev (str_lower s) = str_lower (rev s)" for s
    by (simp add: str_lower_def rev_map)
  then show ?thesis
    by (simp add: str_strip_def dropWhile_isspace_lower)
qed

lemma dropWhile_snoc_keep:
  "\<not> P y \<Longrightarrow> dropWhile P (xs @ [y]) = dropWhile P xs @ [y]"
  by (induction xs) simp_all

lemma str_strip_no_lead:
  "str_strip s = [] \<or> \<not> isspace (hd (str_strip s))"
proof (cases "dropWhile isspace s")
  case Nil
  show ?thesis unfolding str_strip_def Nil by simp
next
  case (Cons y ys)
  then have ny: "\<not> isspace y" using hd_dropWhile [of isspace s] by simp
  have "str_strip s = y # rev (dropWhile isspace (rev ys))"
    using ny by (simp add: str_strip_def Cons dropWhile_snoc_keep)
  with ny show ?thesis by simp
qed

lemma str_strip_idem: "str_strip (str_strip s) = str_strip s"
proof -
  have lead: "dropWhile isspace (str_strip s) = str_strip s"
    using str_strip_no_lead [of s] by (cases "str_strip s") auto
  have "dropWhile isspace (rev (str_strip s)) = rev (str_strip s)"
    by (simp add: str_strip_def)
  then show ?thesis
    unfolding str_strip_def [of "str_strip s"] lead by simp
qed

lemma normalize_eq: "normalize s = str_lower (str_strip s)"
  by (simp add: normalize_def str_strip_lower)

lemma normalize_idem: "str_lower (str_strip (normalize s)) = normalize s"
  by (simp add: normalize_eq str_strip_lower [symmetric] str_lower_idem)
     (simp add: str_strip_lower str_strip_idem)

lemma generate_hash_content:
  "generate_hash H q c = take 16 (H (normalize q @ normalize c))"
  by (simp add: generate_hash_def normalize_eq)

section \<open>Cache key: the claim\<close>

text \<open>
  Claim C6, as stated, fails in its second half. Whatever the digest is, the key is
  computed from the two normalized texts joined without a separator, so the pairs
  \<open>(ab, c)\<close> and \<open>(a, bc)\<close>, whose normal forms differ, get the same key: no digest makes the
  keys of all semantically different pairs differ.
\<close>

theorem hash_collision_counterexample:
  "\<not> (\<exists>H. \<forall>q c q' c'. (normalize q, normalize c) \<noteq> (normalize q', normalize c')
          \<longrightarrow> generate_hash H q c \<noteq> generate_hash H q' c')"
proof
  assume "\<exists>H. \<forall>q c q' c'. (normalize q, normalize c) \<noteq> (normalize q', normalize c')
          \<longrightarrow> generate_hash H q c \<noteq> generate_hash H q' c'"
  then obtain H where H: "\<And>q c q' c'. (normalize q, normalize c) \<noteq> (normalize q', normalize c')
          \<Longrightarrow> generate_hash H q c \<noteq> generate_hash H q' c'"
    by blast
  have d: "(normalize ''ab'', normalize ''c'') \<noteq> (normalize ''a'', normalize ''bc'')"
    by (simp add: normalize_def str_strip_def str_lower_def lower_char_def isspace_def)
  have "generate_hash H ''ab'' ''c'' = generate_hash H ''a'' ''bc''"
    by (simp add: generate_hash_def str_strip_def str_lower_def lower_char_def isspace_def)
  with H [OF d] show False by simp
qed

text \<open>
  Claim C6, amended. For all queries and contexts the key of \<open>(query, context)\<close> is the
  key of \<open>(normalize query, normalize context)\<close>, where \<open>normalize\<close> lower-cases and trims; the
  key is the first 16 characters of the digest of \<open>normalize query @ normalize context\<close>,
  so two pairs with the same joined normal form have the same key, and two pairs whose
  joined normal forms differ have different keys whenever the truncated digest is
  injective on a set of texts that holds both (a corpus without collisions).
\<close>

theorem hash_normalize_invariant:
  "generate_hash H q c = generate_hash H (normalize q) (normalize c)
   \<and> generate_hash H q c = take 16 (H (normalize q @ normalize c))
   \<and> (normalize q @ normalize c = normalize q' @ normalize c'
        \<longrightarrow> generate_hash H q c = generate_hash H q' c')
   \<and> (inj_on (\<lambda>s. take 16 (H s)) S \<and> normalize q @ normalize c \<in> S
        \<and> normalize q' @ normalize c' \<in> S
        \<and> normalize q @ normalize c \<noteq> normalize q' @ normalize c'
        \<longrightarrow> generate_hash H q c \<noteq> generate_hash H q' c')"
proof -
  have a: "generate_hash H q c = generate_hash H (normalize q) (normalize c)"
    by (simp add: generate_hash_def normalize_idem) (simp add: normalize_eq)
  have d: "generate_hash H q c \<noteq> generate_hash H q' c'"
    if "inj_on (\<lambda>s. take 16 (H s)) S" "normalize q @ normalize c \<in> S"
      "normalize q' @ normalize c' \<in> S"
      "normalize q @ normalize c \<noteq> normalize q' @ normalize c'"
    using that unfolding generate_hash_content by (auto dest: inj_onD)
  show ?thesis
    using a d by (auto simp: generate_hash_content)
qed

theorem hash_normalize_invariant_witness:
  "generate_hash digest_example ''  Test Query '' ''CONTEXT''
     = generate_hash digest_example ''test query'' ''context''
   \<and> generate_hash digest_example ''  Test Query '' ''CONTEXT'' = ''test querycontex''
   \<and> generate_hash digest_example ''ab'' ''c'' = generate_hash digest_example ''a'' ''bc''
   \<and> generate_hash digest_example ''ab'' ''c'' \<noteq> generate_hash digest_example ''ab'' ''d''"
proof -
  have n: "normalize ''  Test Query '' = ''test query''" "normalize ''CONTEXT'' = ''context''"
    "normalize ''ab'' = ''ab''" "normalize ''a'' = ''a''" "normalize ''bc'' = ''bc''"
    "normalize ''c'' = ''c''" "normalize ''d'' = ''d''"
    by code_simp+
  have inj: "inj_on (\<lambda>s. take 16 (digest_example s)) {''abc'', ''abd''}"
    by (simp add: digest_example_def)
  have a: "generate_hash digest_example ''  Test Query '' ''CONTEXT''
     = generate_hash digest_example ''test query'' ''context''"
    using hash_normalize_invariant [of digest_example "''  Test Query ''" "''CONTEXT''"]
    by (simp add: n)
  have b: "generate_hash digest_example ''  Test Query '' ''CONTEXT'' = ''test querycontex''"
    using hash_normalize_invariant [of digest_example "''  Test Query ''" "''CONTEXT''",
        THEN conjunct2, THEN conjunct1]
    by (simp add: n digest_example_def)
  have c: "generate_hash digest_example ''ab'' ''c'' = generate_hash digest_example ''a'' ''bc''"
    using hash_normalize_invariant [of digest_example "''ab''" "''c''" "''a''" "''bc''",
        THEN conjunct2, THEN conjunct2, THEN conjunct1]
    by (simp add: n)
  have d: "generate_hash digest_example ''ab'' ''c'' \<noteq> generate_hash digest_example ''ab'' ''d''"
    using hash_normalize_invariant [of digest_example "''ab''" "''c''" "''ab''" "''d''"
        "{''abc'', ''abd''}", THEN conjunct2, THEN conjunct2, THEN conjunct2] inj
    by (simp add: n)
  from a b c d show ?thesis by simp
qed

section \<open>AdvancedCache: lemmas\<close>

text \<open>
  The eviction touches the two dictionaries only; \<^verbatim>\<open>set\<close> leaves the entry, with the hash
  written into it, in memory under its hash, and in the table when the database
  statement succeeds.
\<close>


lemma fold_evict_fields:
  "ttl (fold (\<lambda>(h, _) c'. c'\<lparr>cache := AList.delete h (cache c'),
                                access_times := AList.delete h (access_times c')\<rparr>) xs c) = ttl c
   \<and> db (fold (\<lambda>(h, _) c'. c'\<lparr>cache := AList.delete h (cache c'),
                                access_times := AList.delete h (access_times c')\<rparr>) xs c) = db c
   \<and> max_size (fold (\<lambda>(h, _) c'. c'\<lparr>cache := AList.delete h (cache c'),
                                access_times := AList.delete h (access_times c')\<rparr>) xs c)
       = max_size c"
  by (induction xs arbitrary: c) (auto split: prod.splits)

lemma evict_lru_fields:
  "ttl (evict_lru c) = ttl c" "db (evict_lru c) = db c" "max_size (evict_lru c) = max_size c"
  by (simp_all add: evict_lru_def Let_def fold_evict_fields)

lemma set_ttl: "ttl (AdvancedCache_set H c q x e t ok) = ttl c"
  by (simp add: AdvancedCache_set_def Let_def evict_lru_fields)

lemma set_memory:
  "map_of (cache (AdvancedCache_set H c q x e t ok)) (generate_hash H q x)
     = Some (e\<lparr>query_hash := generate_hash H q x\<rparr>)"
  by (simp add: AdvancedCache_set_def Let_def update_conv')

lemma set_db:
  "db (AdvancedCache_set H c q x e t ok) =
     (if ok
      then (db c)(generate_hash H q x \<mapsto>
             \<lparr>response_data = e\<lparr>query_hash := generate_hash H q x\<rparr>,
              row_timestamp = timestamp e, row_hit_count = hit_count e,
              row_provider = provider e, row_model_used = model_used e\<rparr>)
      else db c)"
  by (simp add: AdvancedCache_set_def Let_def evict_lru_fields)

lemma db_consistent_set:
  "db_consistent c \<Longrightarrow> db_consistent (AdvancedCache_set H c q x e t ok)"
  by (auto simp: db_consistent_def set_db)

lemma db_consistent_get:
  "db_consistent c \<Longrightarrow> db_consistent (fst (AdvancedCache_get H c q x now ok))"
  by (auto simp: db_consistent_def AdvancedCache_get_def get_persistent_def Let_def
      split: option.splits if_splits)

lemma db_consistent_memory:
  "db_consistent (c\<lparr>cache := m, access_times := a\<rparr>) = db_consistent c"
  by (simp add: db_consistent_def)

lemma get_persistent_fresh:
  assumes "db_consistent c" and "get_persistent c h now ok = (c', Some e)"
  shows "now - timestamp e < ttl c"
  using assms
  by (auto simp: get_persistent_def db_consistent_def Let_def split: if_splits option.splits)

lemma get_persistent_memory:
  assumes "db_consistent c" and "map_of (cache c) h = None"
    and "map_of (cache (fst (get_persistent c h now ok))) h = Some e'"
  shows "now - timestamp e' < ttl c"
  using assms
  by (auto simp: get_persistent_def db_consistent_def Let_def update_conv'
      split: if_splits option.splits)

lemma get_persistent_expired:
  assumes "\<forall>row. db c h = Some row \<longrightarrow> ttl c \<le> now - row_timestamp row"
  shows "snd (get_persistent c h now ok) = None"
    and "cache (fst (get_persistent c h now ok)) = cache c"
    and "access_times (fst (get_persistent c h now ok)) = access_times c"
    and "ok \<Longrightarrow> db (fst (get_persistent c h now ok)) h = None"
  using assms
  by (auto simp: get_persistent_def Let_def split: option.splits)

lemma get_fresh:
  assumes "db_consistent c" and "AdvancedCache_get H c q x now ok = (c', Some e)"
  shows "now - timestamp e < ttl c"
proof (cases "map_of (cache c) (generate_hash H q x)")
  case None
  with assms(2) have "get_persistent c (generate_hash H q x) now ok = (c', Some e)"
    by (simp add: AdvancedCache_get_def Let_def)
  with assms(1) show ?thesis by (rule get_persistent_fresh)
next
  case (Some entry)
  show ?thesis
  proof (cases "now - timestamp entry < ttl c")
    case True
    with Some assms(2) show ?thesis
      by (auto simp: AdvancedCache_get_def Let_def)
  next
    case False
    let ?c0 = "c\<lparr>cache := AList.delete (generate_hash H q x) (cache c),
                  access_times := AList.delete (generate_hash H q x) (access_times c)\<rparr>"
    from False Some assms(2)
    have "get_persistent ?c0 (generate_hash H q x) now ok = (c', Some e)"
      by (simp add: AdvancedCache_get_def Let_def)
    moreover have "db_consistent ?c0" using assms(1) by (simp add: db_consistent_memory)
    ultimately have "now - timestamp e < ttl ?c0" by (rule get_persistent_fresh [rotated])
    then show ?thesis by simp
  qed
qed

lemma get_memory_after:
  assumes "db_consistent c"
    and "\<forall>e. map_of (cache c) (generate_hash H q x) = Some e \<longrightarrow> ttl c \<le> now - timestamp e"
    and "map_of (cache (fst (AdvancedCache_get H c q x now ok))) (generate_hash H q x) = Some e'"
  shows "now - timestamp e' < ttl c"
proof (cases "map_of (cache c) (generate_hash H q x)")
  case None
  with assms(3)
  have "map_of (cache (fst (get_persistent c (generate_hash H q x) now ok))) (generate_hash H q x)
          = Some e'"
    by (simp add: AdvancedCache_get_def Let_def)
  with assms(1) None show ?thesis by (rule get_persistent_memory)
next
  case (Some entry)
  let ?h = "generate_hash H q x"
  let ?c0 = "c\<lparr>cache := AList.delete ?h (cache c),
                access_times := AList.delete ?h (access_times c)\<rparr>"
  from Some assms(2) have exp: "\<not> now - timestamp entry < ttl c" by auto
  with Some assms(3)
  have m: "map_of (cache (fst (get_persistent ?c0 ?h now ok))) ?h = Some e'"
    by (simp add: AdvancedCache_get_def Let_def)
  have "db_consistent ?c0" using assms(1) by (simp add: db_consistent_memory)
  moreover have "map_of (cache ?c0) ?h = None" by (simp add: delete_conv')
  ultimately have "now - timestamp e' < ttl ?c0" using m by (rule get_persistent_memory)
  then show ?thesis by simp
qed

lemma get_all_expired:
  assumes "\<forall>e. map_of (cache c) (generate_hash H q x) = Some e \<longrightarrow> ttl c \<le> now - timestamp e"
    and "\<forall>row. db c (generate_hash H q x) = Some row \<longrightarrow> ttl c \<le> now - row_timestamp row"
  shows "snd (AdvancedCache_get H c q x now ok) = None"
    and "map_of (cache (fst (AdvancedCache_get H c q x now ok))) (generate_hash H q x) = None"
    and "map_of (access_times (fst (AdvancedCache_get H c q x now ok))) (generate_hash H q x) = None
         \<or> map_of (cache c) (generate_hash H q x) = None"
    and "ok \<Longrightarrow> db (fst (AdvancedCache_get H c q x now ok)) (generate_hash H q x) = None"
proof -
  let ?h = "generate_hash H q x"
  let ?c0 = "c\<lparr>cache := AList.delete ?h (cache c),
                access_times := AList.delete ?h (access_times c)\<rparr>"
  have row0: "\<forall>row. db ?c0 ?h = Some row \<longrightarrow> ttl ?c0 \<le> now - row_timestamp row"
    using assms(2) by simp
  note p = get_persistent_expired [OF assms(2), of ok]
  note p0 = get_persistent_expired [OF row0, of ok]
  show "snd (AdvancedCache_get H c q x now ok) = None"
    using assms(1) p(1) p0(1)
    by (auto simp: AdvancedCache_get_def Let_def split: option.splits)
  show "map_of (cache (fst (AdvancedCache_get H c q x now ok))) ?h = None"
    using assms(1) p(2) p0(2)
    by (auto simp: AdvancedCache_get_def Let_def delete_conv' split: option.splits)
  show "map_of (access_times (fst (AdvancedCache_get H c q x now ok))) ?h = None
         \<or> map_of (cache c) ?h = None"
    using assms(1) p0(3)
    by (auto simp: AdvancedCache_get_def Let_def delete_conv' split: option.splits)
  show "db (fst (AdvancedCache_get H c q x now ok)) ?h = None" if ok
    using assms(1) p(4) p0(4) that
    by (auto simp: AdvancedCache_get_def Let_def split: option.splits)
qed


lemma get_after_set_live:
  assumes "now - timestamp e < ttl c"
  shows "snd (AdvancedCache_get H (AdvancedCache_set H c q x e t ok1) q x now ok2)
           = Some (e\<lparr>query_hash := generate_hash H q x, hit_count := hit_count e + 1\<rparr>)"
  using assms
  by (simp add: AdvancedCache_get_def [of H "AdvancedCache_set H c q x e t ok1"]
      set_memory set_ttl Let_def)

section \<open>AdvancedCache: the claims\<close>

text \<open>
  Claim C5. For every cache, query, context and entry: after \<^verbatim>\<open>set(query, context, entry)\<close>
  the memory holds, under the hash of the pair, the stored entry, which is the given
  entry with its \<open>query_hash\<close> set to that hash; a following \<^verbatim>\<open>get(query, context)\<close> made
  within the TTL of the entry's timestamp returns the stored entry with its hit count
  incremented by 1 and every other field as stored, whether or not the database
  statements succeed. When the entry was created with the hash of the pair, as
  \<^verbatim>\<open>optimized_consult\<close> creates it, the result is the given entry but for the hit count.
\<close>

theorem cache_round_trip:
  assumes "now - timestamp e < ttl c"
  shows "map_of (cache (AdvancedCache_set H c q x e t ok1)) (generate_hash H q x)
           = Some (e\<lparr>query_hash := generate_hash H q x\<rparr>)
       \<and> snd (AdvancedCache_get H (AdvancedCache_set H c q x e t ok1) q x now ok2)
           = Some (e\<lparr>query_hash := generate_hash H q x, hit_count := hit_count e + 1\<rparr>)
       \<and> (query_hash e = generate_hash H q x \<longrightarrow>
            snd (AdvancedCache_get H (AdvancedCache_set H c q x e t ok1) q x now ok2)
              = Some (e\<lparr>hit_count := hit_count e + 1\<rparr>))"
proof -
  have same: "e\<lparr>query_hash := generate_hash H q x, hit_count := hit_count e + 1\<rparr>
                = e\<lparr>hit_count := hit_count e + 1\<rparr>"
    if "query_hash e = generate_hash H q x"
    using that by (cases e) simp
  show ?thesis
    using get_after_set_live [OF assms, of H q x t ok1 ok2] same
    by (simp add: set_memory)
qed

theorem cache_round_trip_witness:
  "1500 - timestamp entry_example < ttl cache_example
   \<and> snd (AdvancedCache_get digest_example
            (AdvancedCache_set digest_example cache_example ''test query'' ''test context''
               entry_example 1001 True)
            ''test query'' ''test context'' 1500 True)
       = Some \<lparr>response = ''Test response'', provider = ''gemini'', model_used = ''gemini-pro'',
               timestamp = 1000, hit_count = 1, query_hash = ''test querytest c'',
               confidence = 0\<rparr>
   \<and> query_hash (entry_example\<lparr>query_hash := ''test querytest c''\<rparr>)
       = generate_hash digest_example ''test query'' ''test context''
   \<and> snd (AdvancedCache_get digest_example
            (AdvancedCache_set digest_example cache_example ''test query'' ''test context''
               (entry_example\<lparr>query_hash := ''test querytest c''\<rparr>) 1001 False)
            ''test query'' ''test context'' 1500 False)
       = Some (entry_example\<lparr>query_hash := ''test querytest c'', hit_count := 1\<rparr>)"
proof -
  let ?e = "entry_example\<lparr>query_hash := ''test querytest c''\<rparr>"
  have live: "1500 - timestamp entry_example < ttl cache_example"
    by (simp add: entry_example_def cache_example_def)
  have live': "1500 - timestamp ?e < ttl cache_example"
    by (simp add: entry_example_def cache_example_def)
  have h: "generate_hash digest_example ''test query'' ''test context'' = ''test querytest c''"
    by code_simp
  have keyed: "query_hash ?e = generate_hash digest_example ''test query'' ''test context''"
    by (simp add: h)
  have a: "snd (AdvancedCache_get digest_example
            (AdvancedCache_set digest_example cache_example ''test query'' ''test context''
               entry_example 1001 True)
            ''test query'' ''test context'' 1500 True)
       = Some \<lparr>response = ''Test response'', provider = ''gemini'', model_used = ''gemini-pro'',
               timestamp = 1000, hit_count = 1, query_hash = ''test querytest c'',
               confidence = 0\<rparr>"
    using cache_round_trip [OF live, where H = digest_example and q = "''test query''"
        and x = "''test context''" and t = 1001 and ?ok1.0 = True and ?ok2.0 = True]
    by (simp add: h) (simp add: entry_example_def)
  have b: "snd (AdvancedCache_get digest_example
            (AdvancedCache_set digest_example cache_example ''test query'' ''test context''
               ?e 1001 False)
            ''test query'' ''test context'' 1500 False)
       = Some (entry_example\<lparr>query_hash := ''test querytest c'', hit_count := 1\<rparr>)"
    using cache_round_trip [OF live', where H = digest_example and q = "''test query''"
        and x = "''test context''" and t = 1001 and ?ok1.0 = False and ?ok2.0 = False,
        THEN conjunct2, THEN conjunct2] keyed
    by (simp add: entry_example_def)
  from live a keyed b show ?thesis by blast
qed

text \<open>
  Claim C4. In a cache whose table rows were written by \<^verbatim>\<open>set\<close>: (1) every entry that
  \<^verbatim>\<open>get\<close> returns is younger than the TTL at the time of the call; (2) when the entry in
  memory under the hash has expired, it is no longer in memory after \<^verbatim>\<open>get\<close>: whatever
  memory then holds under the hash is younger than the TTL; (3) when the entry in memory
  (if any) and the row in the table (if any) have both expired, \<^verbatim>\<open>get\<close> returns nothing,
  memory holds nothing under the hash afterwards, and the row is deleted if the database
  statement succeeds; (4) after \<^verbatim>\<open>set\<close> of an entry with timestamp \<open>t\<close>, a \<^verbatim>\<open>get\<close> of the same
  pair at a time \<open>now\<close> with \<open>now - t \<ge> ttl\<close> never returns an entry of that timestamp, and
  returns nothing when the \<^verbatim>\<open>set\<close> reached the table.
\<close>

theorem expired_never_returned:
  assumes "db_consistent c"
  shows "(\<forall>c' e. AdvancedCache_get H c q x now ok = (c', Some e) \<longrightarrow> now - timestamp e < ttl c)
       \<and> ((\<forall>e. map_of (cache c) (generate_hash H q x) = Some e \<longrightarrow> ttl c \<le> now - timestamp e) \<longrightarrow>
            (\<forall>e'. map_of (cache (fst (AdvancedCache_get H c q x now ok))) (generate_hash H q x)
                     = Some e' \<longrightarrow> now - timestamp e' < ttl c))
       \<and> ((\<forall>e. map_of (cache c) (generate_hash H q x) = Some e \<longrightarrow> ttl c \<le> now - timestamp e)
            \<and> (\<forall>row. db c (generate_hash H q x) = Some row \<longrightarrow> ttl c \<le> now - row_timestamp row) \<longrightarrow>
            snd (AdvancedCache_get H c q x now ok) = None
            \<and> map_of (cache (fst (AdvancedCache_get H c q x now ok))) (generate_hash H q x) = None
            \<and> (ok \<longrightarrow> db (fst (AdvancedCache_get H c q x now ok)) (generate_hash H q x) = None))
       \<and> (ttl c \<le> now - timestamp e0 \<longrightarrow>
            (\<forall>e'. snd (AdvancedCache_get H (AdvancedCache_set H c q x e0 t ok1) q x now ok)
                     = Some e' \<longrightarrow> timestamp e' \<noteq> timestamp e0)
            \<and> (ok1 \<longrightarrow>
                 snd (AdvancedCache_get H (AdvancedCache_set H c q x e0 t ok1) q x now ok) = None))"
proof -
  let ?h = "generate_hash H q x"
  let ?s = "AdvancedCache_set H c q x e0 t ok1"
  have A: "\<forall>c' e. AdvancedCache_get H c q x now ok = (c', Some e) \<longrightarrow> now - timestamp e < ttl c"
    using get_fresh [OF assms] by blast
  have B: "(\<forall>e. map_of (cache c) ?h = Some e \<longrightarrow> ttl c \<le> now - timestamp e) \<longrightarrow>
            (\<forall>e'. map_of (cache (fst (AdvancedCache_get H c q x now ok))) ?h
                     = Some e' \<longrightarrow> now - timestamp e' < ttl c)"
    using get_memory_after [OF assms] by blast
  have C: "(\<forall>e. map_of (cache c) ?h = Some e \<longrightarrow> ttl c \<le> now - timestamp e)
            \<and> (\<forall>row. db c ?h = Some row \<longrightarrow> ttl c \<le> now - row_timestamp row) \<longrightarrow>
            snd (AdvancedCache_get H c q x now ok) = None
            \<and> map_of (cache (fst (AdvancedCache_get H c q x now ok))) ?h = None
            \<and> (ok \<longrightarrow> db (fst (AdvancedCache_get H c q x now ok)) ?h = None)"
    using get_all_expired [of c H q x now ok] by blast
  have D: "(\<forall>e'. snd (AdvancedCache_get H ?s q x now ok) = Some e' \<longrightarrow> timestamp e' \<noteq> timestamp e0)
            \<and> (ok1 \<longrightarrow> snd (AdvancedCache_get H ?s q x now ok) = None)"
    if old: "ttl c \<le> now - timestamp e0"
  proof -
    have cons: "db_consistent ?s" using assms by (rule db_consistent_set)
    have fresh: "now - timestamp e' < ttl c"
      if r: "snd (AdvancedCache_get H ?s q x now ok) = Some e'" for e'
    proof -
      obtain c' where "AdvancedCache_get H ?s q x now ok = (c', Some e')"
        using r by (cases "AdvancedCache_get H ?s q x now ok") auto
      from get_fresh [OF cons this] show ?thesis by (simp add: set_ttl)
    qed
    have d1: "\<forall>e'. snd (AdvancedCache_get H ?s q x now ok) = Some e' \<longrightarrow> timestamp e' \<noteq> timestamp e0"
      using fresh old by fastforce
    have d2: "snd (AdvancedCache_get H ?s q x now ok) = None" if ok1
    proof (rule get_all_expired(1))
      show "\<forall>e. map_of (cache ?s) ?h = Some e \<longrightarrow> ttl ?s \<le> now - timestamp e"
        using old by (auto simp: set_memory set_ttl)
      show "\<forall>row. db ?s ?h = Some row \<longrightarrow> ttl ?s \<le> now - row_timestamp row"
        using old that by (auto simp: set_db set_ttl)
    qed
    from d1 d2 show ?thesis by blast
  qed
  from A B C D show ?thesis by blast
qed

theorem expired_never_returned_witness:
  "db_consistent cache_example
   \<and> ttl cache_example \<le> 5000 - timestamp entry_example
   \<and> snd (AdvancedCache_get digest_example
            (AdvancedCache_set digest_example cache_example ''test query'' ''test context''
               entry_example 1001 True)
            ''test query'' ''test context'' 5000 True) = None
   \<and> map_of (cache (fst (AdvancedCache_get digest_example
            (AdvancedCache_set digest_example cache_example ''test query'' ''test context''
               entry_example 1001 True)
            ''test query'' ''test context'' 5000 True))) ''test querytest c'' = None
   \<and> db (fst (AdvancedCache_get digest_example
            (AdvancedCache_set digest_example cache_example ''test query'' ''test context''
               entry_example 1001 True)
            ''test query'' ''test context'' 5000 True)) ''test querytest c'' = None
   \<and> snd (AdvancedCache_get digest_example
            (AdvancedCache_set digest_example cache_example ''test query'' ''test context''
               entry_example 1001 True)
            ''test query'' ''test context'' 1500 True)
       = Some (entry_example\<lparr>query_hash := ''test querytest c'', hit_count := 1\<rparr>)
   \<and> 1500 - timestamp (entry_example\<lparr>query_hash := ''test querytest c'', hit_count := 1\<rparr>)
       < ttl (AdvancedCache_set digest_example cache_example ''test query'' ''test context''
               entry_example 1001 True)"
proof -
  let ?s = "AdvancedCache_set digest_example cache_example ''test query'' ''test context''
               entry_example 1001 True"
  let ?e1 = "entry_example\<lparr>query_hash := ''test querytest c'', hit_count := 1\<rparr>"
  have cons: "db_consistent cache_example"
    by (simp add: db_consistent_def cache_example_def)
  have old: "ttl cache_example \<le> 5000 - timestamp entry_example"
    by (simp add: entry_example_def cache_example_def)
  have h: "generate_hash digest_example ''test query'' ''test context'' = ''test querytest c''"
    by code_simp
  have a: "snd (AdvancedCache_get digest_example ?s ''test query'' ''test context'' 5000 True) = None"
    using expired_never_returned [OF cons, where H = digest_example and q = "''test query''"
        and x = "''test context''" and now = 5000 and ok = True and ?e0.0 = entry_example
        and t = 1001 and ?ok1.0 = True] old
    by blast
  have cons': "db_consistent ?s" using cons by (rule db_consistent_set)
  have m: "\<forall>e. map_of (cache ?s) (generate_hash digest_example ''test query'' ''test context'')
              = Some e \<longrightarrow> ttl ?s \<le> 5000 - timestamp e"
    using old by (auto simp: set_memory set_ttl)
  have r: "\<forall>row. db ?s (generate_hash digest_example ''test query'' ''test context'')
              = Some row \<longrightarrow> ttl ?s \<le> 5000 - row_timestamp row"
    using old by (auto simp: set_db set_ttl)
  have b: "map_of (cache (fst (AdvancedCache_get digest_example ?s ''test query''
              ''test context'' 5000 True))) ''test querytest c'' = None
       \<and> db (fst (AdvancedCache_get digest_example ?s ''test query''
              ''test context'' 5000 True)) ''test querytest c'' = None"
    using expired_never_returned [OF cons', where H = digest_example
        and q = "''test query''" and x = "''test context''" and now = 5000 and ok = True] m r
    unfolding h by blast
  have live: "1500 - timestamp entry_example < ttl cache_example"
    by (simp add: entry_example_def cache_example_def)
  have hit: "snd (AdvancedCache_get digest_example ?s ''test query'' ''test context'' 1500 True)
               = Some ?e1"
    using get_after_set_live [OF live, where H = digest_example and q = "''test query''"
        and x = "''test context''" and t = 1001 and ?ok1.0 = True and ?ok2.0 = True]
    by (simp add: h entry_example_def)
  then obtain c' where got:
    "AdvancedCache_get digest_example ?s ''test query'' ''test context'' 1500 True = (c', Some ?e1)"
    by (cases "AdvancedCache_get digest_example ?s ''test query'' ''test context'' 1500 True") auto
  have c: "1500 - timestamp ?e1 < ttl ?s"
    using expired_never_returned [OF cons', where H = digest_example
        and q = "''test query''" and x = "''test context''" and now = 1500 and ok = True,
        THEN conjunct1] got
    by blast
  from cons old a b hit c show ?thesis by blast
qed

end
